theory Spec2Isabelle
  imports Main "HOL-Library.AList"
begin

section \<open>Values\<close>

text \<open>
  The values the configuration code handles are the values of a JSON document: the
  default configuration is a nested object literal, the persisted configuration is what
  \<^verbatim>\<open>JSON.parse\<close> returns. An object is the list of its own enumerable properties in
  enumeration order (the order of \<^verbatim>\<open>for (let key in thing)\<close> and of
  \<^verbatim>\<open>JSON.stringify\<close>); a JavaScript object has every key once, which \<open>wf_json\<close> below
  states. \<^verbatim>\<open>undefined\<close> is not a JSON value: an expression that may be undefined has
  type \<open>json option\<close> and \<open>None\<close> is \<^verbatim>\<open>undefined\<close>.

  A number is a double. The code copies numbers, tests them for truthiness and has
  them printed by \<^verbatim>\<open>JSON.stringify\<close>; it does no arithmetic. \<open>Finite n\<close> is a finite number
  other than \<^verbatim>\<open>-0\<close>, told apart from the others by the integer \<open>n\<close>, with \<open>Finite 0\<close> for
  zero and an integer of magnitude below \<^verbatim>\<open>2 ** 53\<close> for itself; the other four are \<^verbatim>\<open>-0\<close>,
  \<^verbatim>\<open>NaN\<close>, \<^verbatim>\<open>Infinity\<close> and \<^verbatim>\<open>-Infinity\<close>, which a default configuration may hold and,
  but for \<^verbatim>\<open>NaN\<close>, a parsed text too (\<^verbatim>\<open>-0\<close>, \<^verbatim>\<open>1e999\<close>).

  A new property is appended to the list; JavaScript enumerates integer-like keys
  before the others, which the model does not follow: the order of the keys of a
  written document is that of JavaScript only for keys that are not integer-like.
\<close>

datatype number = Finite int | NegZero | NaN | PosInfinity | NegInfinity

datatype json =
    JNull
  | JBool bool
  | JNum number
  | JStr string
  | JArr "json list"
  | JObj "(string \<times> json) list"

datatype error =
    ArraysNotSupported   \<comment> \<open>\<^verbatim>\<open>new Error('Arrays not supported in configuration')\<close>\<close>
  | TypeError            \<comment> \<open>strict-mode property write on a primitive, or on \<^verbatim>\<open>null\<close>\<close>
  | SyntaxError          \<comment> \<open>\<^verbatim>\<open>JSON.parse\<close> on text that is not JSON\<close>
  | ENOENT               \<comment> \<open>\<^verbatim>\<open>readFileSync\<close> on a file that does not exist\<close>
  | ArrayPropertyWrite   \<comment> \<open>the source would add a property to an array: not followed by the model\<close>

text \<open>
  \<^verbatim>\<open>!thing\<close>: the falsy values are null, false, the numbers \<^verbatim>\<open>0\<close>, \<^verbatim>\<open>-0\<close> and \<^verbatim>\<open>NaN\<close>, the empty
  string and undefined.
\<close>

fun falsy_number :: "number \<Rightarrow> bool" where
  "falsy_number (Finite n) = (n = 0)"
| "falsy_number NegZero = True"
| "falsy_number NaN = True"
| "falsy_number PosInfinity = False"
| "falsy_number NegInfinity = False"

fun falsy :: "json \<Rightarrow> bool" where
  "falsy JNull = True"
| "falsy (JBool b) = (\<not> b)"
| "falsy (JNum n) = falsy_number n"
| "falsy (JStr s) = (s = [])"
| "falsy (JArr xs) = False"
| "falsy (JObj kvs) = False"

fun falsy_opt :: "json option \<Rightarrow> bool" where
  "falsy_opt None = True"
| "falsy_opt (Some v) = falsy v"

text \<open>The decimal name of an index, as in \<^verbatim>\<open>String(i)\<close>: the key of an array element.\<close>

fun index_key :: "nat \<Rightarrow> string" where
  "index_key n =
     (if n < 10 then [char_of (48 + n)]
      else index_key (n div 10) @ [char_of (48 + n mod 10)])"

definition entries :: "'a list \<Rightarrow> (string \<times> 'a) list" where
  "entries xs = zip (map index_key [0 ..< length xs]) xs"

text \<open>
  \<^verbatim>\<open>thing[next]\<close> read on a value, from its own properties: a property of an object, an
  element or the length of an array, a character or the length of a string; numbers
  and booleans have no own properties.
\<close>

fun own_prop :: "json \<Rightarrow> string \<Rightarrow> json option" where
  "own_prop (JObj kvs) k = map_of kvs k"
| "own_prop (JArr xs) k =
     (if k = ''length'' then Some (JNum (Finite (int (length xs)))) else map_of (entries xs) k)"
| "own_prop (JStr s) k =
     (if k = ''length'' then Some (JNum (Finite (int (length s))))
      else map_of (entries (map (\<lambda>c. JStr [c]) s)) k)"
| "own_prop v k = None"

text \<open>
  Where the value has no own property of that name, JavaScript goes on to the
  prototype of the value: of an object made by a literal or by \<^verbatim>\<open>JSON.parse\<close> that is
  \<^verbatim>\<open>Object.prototype\<close>, of an array, a string, a number and a boolean the prototype of its
  kind and then \<^verbatim>\<open>Object.prototype\<close>. The members found there are built-in functions (and
  the accessor \<^verbatim>\<open>__proto__\<close>), which are no JSON values: \<open>own_prop\<close> is \<^verbatim>\<open>thing[next]\<close> for
  every key but those that \<open>inherits\<close> tells, the names of the members of the standard
  prototypes.
\<close>

definition Object_prototype :: "string list" where
  "Object_prototype =
     [''constructor'', ''hasOwnProperty'', ''isPrototypeOf'', ''propertyIsEnumerable'',
      ''toLocaleString'', ''toString'', ''valueOf'', ''__proto__'', ''__defineGetter__'',
      ''__defineSetter__'', ''__lookupGetter__'', ''__lookupSetter__'']"

definition Array_prototype :: "string list" where
  "Array_prototype =
     [''at'', ''concat'', ''copyWithin'', ''entries'', ''every'', ''fill'', ''filter'', ''find'',
      ''findIndex'', ''findLast'', ''findLastIndex'', ''flat'', ''flatMap'', ''forEach'',
      ''includes'', ''indexOf'', ''join'', ''keys'', ''lastIndexOf'', ''map'', ''pop'', ''push'',
      ''reduce'', ''reduceRight'', ''reverse'', ''shift'', ''slice'', ''some'', ''sort'', ''splice'',
      ''toReversed'', ''toSorted'', ''toSpliced'', ''unshift'', ''values'', ''with'']"

definition String_prototype :: "string list" where
  "String_prototype =
     [''anchor'', ''at'', ''big'', ''blink'', ''bold'', ''charAt'', ''charCodeAt'', ''codePointAt'',
      ''concat'', ''endsWith'', ''fixed'', ''fontcolor'', ''fontsize'', ''includes'', ''indexOf'',
      ''isWellFormed'', ''italics'', ''lastIndexOf'', ''link'', ''localeCompare'', ''match'',
      ''matchAll'', ''normalize'', ''padEnd'', ''padStart'', ''repeat'', ''replace'', ''replaceAll'',
      ''search'', ''slice'', ''small'', ''split'', ''startsWith'', ''strike'', ''sub'', ''substr'',
      ''substring'', ''sup'', ''toLocaleLowerCase'', ''toLocaleUpperCase'', ''toLowerCase'',
      ''toUpperCase'', ''toWellFormed'', ''trim'', ''trimEnd'', ''trimLeft'', ''trimRight'',
      ''trimStart'']"

definition Number_prototype :: "string list" where
  "Number_prototype = [''toExponential'', ''toFixed'', ''toPrecision'']"



section \<open>The path accessor\<close>

text \<open>
  \<^verbatim>\<open>getValueFromPath(thing, path)\<close>. The source consumes \<open>path\<close> with \<^verbatim>\<open>shift\<close>; every
  caller passes a fresh copy \<^verbatim>\<open>[...path]\<close>, so the list is passed by value here.
\<close>

fun getValueFromPath :: "json option \<Rightarrow> string list \<Rightarrow> json option" where
  "getValueFromPath thing [] = thing"
| "getValueFromPath None (next # path) = None"
| "getValueFromPath (Some t) (next # path) =
     (if falsy t then None else getValueFromPath (own_prop t next) path)"

text \<open>
  \<^verbatim>\<open>thing[next] = setThing\<close>: on an object the property is overwritten in place or
  appended; on a primitive the class body's strict mode raises a TypeError. A property
  that holds \<^verbatim>\<open>undefined\<close> reads as not found and is left out by \<^verbatim>\<open>JSON.stringify\<close>;
  the model drops it. On an array the source sets a property of the array object, which
  a list of elements cannot hold: there the model stops with \<open>ArrayPropertyWrite\<close>, where
  the source goes on. What is proved below of a reconciliation that succeeds is proved
  of runs that never write to an array.
\<close>

fun assign :: "json \<Rightarrow> string \<Rightarrow> json option \<Rightarrow> error + json" where
  "assign (JObj kvs) k (Some v) = Inr (JObj (AList.update k v kvs))"
| "assign (JObj kvs) k None = Inr (JObj (AList.delete k kvs))"
| "assign (JArr xs) k v = Inl ArrayPropertyWrite"
| "assign t k v = Inl TypeError"

text \<open>
  The child \<^verbatim>\<open>thing[next]\<close> is mutated in place by the recursive call; in a value model
  the mutated child is put back into its parent.
\<close>

fun put_child :: "json \<Rightarrow> string \<Rightarrow> json \<Rightarrow> json" where
  "put_child (JObj kvs) k c = JObj (AList.update k c kvs)"
| "put_child (JArr xs) k c = JArr (map snd (AList.update k c (entries xs)))"
| "put_child t k c = t"

fun setValueFromPath :: "json \<Rightarrow> string list \<Rightarrow> json option \<Rightarrow> error + json" where
  "setValueFromPath thing [] setThing = Inr thing"
| "setValueFromPath thing [next] setThing = assign thing next setThing"
| "setValueFromPath thing (next # path) setThing =
     (if falsy_opt (own_prop thing next) then
        (case assign thing next (Some (JObj [])) of
           Inl e \<Rightarrow> Inl e
         | Inr thing' \<Rightarrow>
             (case setValueFromPath (JObj []) path setThing of
                Inl e \<Rightarrow> Inl e
              | Inr child' \<Rightarrow> Inr (put_child thing' next child')))
      else
        (case own_prop thing next of
           None \<Rightarrow> Inl TypeError
         | Some child \<Rightarrow>
             (case setValueFromPath child path setThing of
                Inl e \<Rightarrow> Inl e
              | Inr child' \<Rightarrow> Inr (put_child thing next child'))))"

section \<open>The reconciler\<close>

text \<open>
  \<^verbatim>\<open>Array.isArray(thing)\<close>, \<^verbatim>\<open>typeof thing === 'object'\<close> (true of \<^verbatim>\<open>null\<close> too) and the keys
  that \<^verbatim>\<open>for (let key in thing)\<close> enumerates (none for \<^verbatim>\<open>null\<close>).
\<close>

fun isArray :: "json option \<Rightarrow> bool" where
  "isArray (Some (JArr xs)) = True"
| "isArray thing = False"

fun typeof_object :: "json option \<Rightarrow> bool" where
  "typeof_object (Some JNull) = True"
| "typeof_object (Some (JArr xs)) = True"
| "typeof_object (Some (JObj kvs)) = True"
| "typeof_object thing = False"

fun keys_in :: "json option \<Rightarrow> string list" where
  "keys_in (Some (JObj kvs)) = map fst kvs"
| "keys_in (Some (JArr xs)) = map index_key [0 ..< length xs]"
| "keys_in thing = []"

text \<open>
  The state of a reconciliation is \<^verbatim>\<open>this.config\<close> and the object \<^verbatim>\<open>propsValues\<close>, both
  mutated in place by the source. Here they are values, trees with no object at two
  places; the section on objects by reference has the same functions on a heap, where
  an object can be shared. An outcome is the exception raised, if any, with the two
  objects as they are then. A failing \<^verbatim>\<open>setValueFromPath\<close> has written nothing: it
  writes when it creates an intermediate object, below which it cannot fail, and at the
  last key.
\<close>

type_synonym outcome = "error option \<times> json \<times> json"

text \<open>
  The loop \<^verbatim>\<open>for (let key in thing) { path.push(key); this.loadConfig(propsValues,
  [...path]); path.pop(); }\<close> over the keys of \<open>thing\<close>, with the recursive call as \<open>body\<close>.
\<close>

fun for_in ::
  "(json \<Rightarrow> json \<Rightarrow> string list \<Rightarrow> outcome option) \<Rightarrow> string list \<Rightarrow>
   json \<Rightarrow> json \<Rightarrow> string list \<Rightarrow> outcome option" where
  "for_in body [] cfg propsValues path = Some (None, cfg, propsValues)"
| "for_in body (key # keys) cfg propsValues path =
     (case body cfg propsValues (path @ [key]) of
        None \<Rightarrow> None
      | Some (Some e, cfg', props') \<Rightarrow> Some (Some e, cfg', props')
      | Some (None, cfg', props') \<Rightarrow> for_in body keys cfg' props' path)"

text \<open>
  \<^verbatim>\<open>loadConfig(propsValues, path)\<close> on the instance whose \<^verbatim>\<open>this.config\<close> is \<open>cfg\<close>. The
  first argument bounds the depth of the recursion; \<open>None\<close> is a recursion that did not
  finish within the bound.
\<close>

fun loadConfig :: "nat \<Rightarrow> json \<Rightarrow> json \<Rightarrow> string list \<Rightarrow> outcome option" where
  "loadConfig 0 cfg propsValues path = None"
| "loadConfig (Suc n) cfg propsValues path =
     (let thing = getValueFromPath (Some cfg) path in
      if isArray thing then Some (Some ArraysNotSupported, cfg, propsValues)
      else if typeof_object thing then
        for_in (\<lambda>c p pa. loadConfig n c p pa) (keys_in thing) cfg propsValues path
      else
        (let propValueThing = getValueFromPath (Some propsValues) path in
         if propValueThing = None then
           (case setValueFromPath propsValues path thing of
              Inl e \<Rightarrow> Some (Some e, cfg, propsValues)
            | Inr props' \<Rightarrow> Some (None, cfg, props'))
         else
           (case setValueFromPath cfg path propValueThing of
              Inl e \<Rightarrow> Some (Some e, cfg, propsValues)
            | Inr cfg' \<Rightarrow> Some (None, cfg', propsValues))))"

section \<open>Storage and initialisation\<close>

text \<open>
  The text of the configuration file: empty, a text that \<^verbatim>\<open>JSON.parse\<close> accepts, or one that
  it rejects. \<open>Doc j\<close> is a text that \<^verbatim>\<open>JSON.parse\<close> reads as the value \<open>j\<close>; what the source
  does with a text depends on that value only. The disk is the text of the file at
  \<^verbatim>\<open>configPath\<close>, if it exists, and the log of the texts written to it.
\<close>

datatype file_text = Blank | Doc json | Malformed

record disk =
  content :: "file_text option"
  written :: "file_text list"

definition existsSync :: "disk \<Rightarrow> bool" where
  "existsSync d = (content d \<noteq> None)"

definition writeFileSync :: "disk \<Rightarrow> file_text \<Rightarrow> disk" where
  "writeFileSync d t = d\<lparr>content := Some t, written := written d @ [t]\<rparr>"

definition readFileSync :: "disk \<Rightarrow> error + file_text" where
  "readFileSync d = (case content d of None \<Rightarrow> Inl ENOENT | Some t \<Rightarrow> Inr t)"

text \<open>\<^verbatim>\<open>JSON.parse(confFileData.toString() || '{}')\<close>\<close>

fun parse_or_empty :: "file_text \<Rightarrow> error + json" where
  "parse_or_empty Blank = Inr (JObj [])"
| "parse_or_empty (Doc j) = Inr j"
| "parse_or_empty Malformed = Inl SyntaxError"

text \<open>
  \<^verbatim>\<open>JSON.stringify(props, null, 2)\<close>. The text has \<^verbatim>\<open>null\<close> for \<^verbatim>\<open>NaN\<close>, \<^verbatim>\<open>Infinity\<close> and
  \<^verbatim>\<open>-Infinity\<close> and \<^verbatim>\<open>0\<close> for \<^verbatim>\<open>-0\<close>; every other number is printed so that it is read back
  as itself. \<open>printed v\<close> is the value that the text of \<open>v\<close> is read as.
\<close>

fun printed_number :: "number \<Rightarrow> json" where
  "printed_number (Finite n) = JNum (Finite n)"
| "printed_number NegZero = JNum (Finite 0)"
| "printed_number NaN = JNull"
| "printed_number PosInfinity = JNull"
| "printed_number NegInfinity = JNull"

fun printed :: "json \<Rightarrow> json"
  and printed_fields :: "(string \<times> json) list \<Rightarrow> (string \<times> json) list"
  and printed_list :: "json list \<Rightarrow> json list"
  where
  "printed JNull = JNull"
| "printed (JBool b) = JBool b"
| "printed (JNum n) = printed_number n"
| "printed (JStr s) = JStr s"
| "printed (JArr xs) = JArr (printed_list xs)"
| "printed (JObj kvs) = JObj (printed_fields kvs)"
| "printed_fields [] = []"
| "printed_fields ((k, v) # kvs) = (k, printed v) # printed_fields kvs"
| "printed_list [] = []"
| "printed_list (v # vs) = printed v # printed_list vs"

definition stringify :: "json \<Rightarrow> file_text" where
  "stringify v = Doc (printed v)"

record this =
  initialized :: bool
  config :: json

text \<open>\<^verbatim>\<open>new Config(defaultConfig, configFileName, configFilePath)\<close>\<close>

definition Config :: "json \<Rightarrow> this" where
  "Config defaultConfig = \<lparr>initialized = False, config = defaultConfig\<rparr>"

text \<open>
  \<^verbatim>\<open>init()\<close>: the exception raised, if any, the instance and the disk afterwards. The
  first argument is the recursion bound of \<open>loadConfig\<close>.
\<close>

definition init :: "nat \<Rightarrow> this \<Rightarrow> disk \<Rightarrow> (error option \<times> this \<times> disk) option" where
  "init fuel self d =
     (if initialized self then Some (None, self, d)
      else
        (let d1 = (if \<not> existsSync d then writeFileSync d Blank else d) in
         case readFileSync d1 of
           Inl e \<Rightarrow> Some (Some e, self, d1)
         | Inr confFileData \<Rightarrow>
             (case parse_or_empty confFileData of
                Inl e \<Rightarrow> Some (Some e, self, d1)
              | Inr props \<Rightarrow>
                  (case loadConfig fuel (config self) props [] of
                     None \<Rightarrow> None
                   | Some (Some e, cfg', props') \<Rightarrow> Some (Some e, self\<lparr>config := cfg'\<rparr>, d1)
                   | Some (None, cfg', props') \<Rightarrow>
                       Some (None, self\<lparr>config := cfg', initialized := True\<rparr>,
                             writeFileSync d1 (stringify props'))))))"

text \<open>
  \<^verbatim>\<open>getConfig()\<close>: \<^verbatim>\<open>init()\<close>, then \<^verbatim>\<open>structuredClone(this.config)\<close>, a deep copy, which in a
  value model is the value itself.
\<close>

definition getConfig ::
  "nat \<Rightarrow> this \<Rightarrow> disk \<Rightarrow> ((error + json) \<times> this \<times> disk) option" where
  "getConfig fuel self d =
     (case init fuel self d of
        None \<Rightarrow> None
      | Some (Some e, self', d') \<Rightarrow> Some (Inl e, self', d')
      | Some (None, self', d') \<Rightarrow> Some (Inr (config self'), self', d'))"

text \<open>
  The second variant of the class (synchronous \<^verbatim>\<open>init\<close> and \<^verbatim>\<open>getConfig\<close>) has the same
  \<open>loadConfig\<close>, \<open>getValueFromPath\<close> and \<open>setValueFromPath\<close>. Its constructor and its \<open>init\<close>
  first copy the own enumerable properties of the object into a new object without
  prototype, \<^verbatim>\<open>Object.assign(Object.create(null), x)\<close>: of an object its properties, of an
  array its elements under their indices, of a string its characters, of anything else
  nothing. In a value model the copy of an object is the object.
\<close>

fun assign_to_new :: "json \<Rightarrow> json" where
  "assign_to_new (JObj kvs) = JObj kvs"
| "assign_to_new (JArr xs) = JObj (entries xs)"
| "assign_to_new (JStr s) = JObj (entries (map (\<lambda>c. JStr [c]) s))"
| "assign_to_new v = JObj []"

definition Config_sync :: "json \<Rightarrow> this" where
  "Config_sync defaultConfig = \<lparr>initialized = False, config = assign_to_new defaultConfig\<rparr>"

definition init_sync :: "nat \<Rightarrow> this \<Rightarrow> disk \<Rightarrow> (error option \<times> this \<times> disk) option" where
  "init_sync fuel self d =
     (if initialized self then Some (None, self, d)
      else
        (let d1 = (if \<not> existsSync d then writeFileSync d Blank else d) in
         case readFileSync d1 of
           Inl e \<Rightarrow> Some (Some e, self, d1)
         | Inr confFileData \<Rightarrow>
             (case parse_or_empty confFileData of
                Inl e \<Rightarrow> Some (Some e, self, d1)
              | Inr parsed \<Rightarrow>
                  (let props = assign_to_new parsed in
                   case loadConfig fuel (config self) props [] of
                     None \<Rightarrow> None
                   | Some (Some e, cfg', props') \<Rightarrow> Some (Some e, self\<lparr>config := cfg'\<rparr>, d1)
                   | Some (None, cfg', props') \<Rightarrow>
                       Some (None, self\<lparr>config := cfg', initialized := True\<rparr>,
                             writeFileSync d1 (stringify props'))))))"

text \<open>Its \<open>getConfig\<close> copies by \<^verbatim>\<open>JSON.parse(JSON.stringify(this.config))\<close>.\<close>

definition getConfig_sync ::
  "nat \<Rightarrow> this \<Rightarrow> disk \<Rightarrow> ((error + json) \<times> this \<times> disk) option" where
  "getConfig_sync fuel self d =
     (case init_sync fuel self d of
        None \<Rightarrow> None
      | Some (Some e, self', d') \<Rightarrow> Some (Inl e, self', d')
      | Some (None, self', d') \<Rightarrow> Some (Inr (printed (config self')), self', d'))"

section \<open>Notions used by the properties\<close>

text \<open>The value at a key path, descending through objects only.\<close>

fun lookup :: "json \<Rightarrow> string list \<Rightarrow> json option" where
  "lookup t [] = Some t"
| "lookup (JObj kvs) (k # p) = (case map_of kvs k of None \<Rightarrow> None | Some c \<Rightarrow> lookup c p)"
| "lookup t (k # p) = None"

text \<open>A scalar is a string, a number, a boolean or null.\<close>

fun scalar :: "json \<Rightarrow> bool" where
  "scalar (JArr xs) = False"
| "scalar (JObj kvs) = False"
| "scalar v = True"

fun no_arrays :: "json \<Rightarrow> bool" where
  "no_arrays (JArr xs) = False"
| "no_arrays (JObj kvs) = list_all no_arrays (map snd kvs)"
| "no_arrays v = True"

text \<open>Every object has each key once, as every JavaScript object does.\<close>

fun wf_json :: "json \<Rightarrow> bool" where
  "wf_json (JObj kvs) = (distinct (map fst kvs) \<and> list_all wf_json (map snd kvs))"
| "wf_json (JArr xs) = list_all wf_json xs"
| "wf_json v = True"

text \<open>The nesting depth: the recursion of \<open>loadConfig\<close> on a value is at most this deep.\<close>

fun depth :: "json \<Rightarrow> nat" where
  "depth (JObj kvs) = Suc (foldr max (map depth (map snd kvs)) 0)"
| "depth v = 1"



section \<open>The reconciliation as a function of the default structure\<close>

text \<open>
  \<open>loadConfig\<close> reads the value at \<open>path\<close> out of \<^verbatim>\<open>this.config\<close> again at every call.
  \<open>walk\<close> is the same reconciliation by recursion on that value: the exception raised,
  if any, the merged value and the persisted structure afterwards. The lemma
  \<open>loadConfig_walk\<close> below shows that \<open>loadConfig\<close> computes \<open>walk\<close> and puts the merged
  value back at \<open>path\<close>.
\<close>

fun replace_at :: "json \<Rightarrow> string list \<Rightarrow> json \<Rightarrow> json" where
  "replace_at t [] m = m"
| "replace_at (JObj kvs) (k # p) m =
     (case map_of kvs k of
        None \<Rightarrow> JObj kvs
      | Some c \<Rightarrow> JObj (AList.update k (replace_at c p m) kvs))"
| "replace_at t (k # p) m = t"

definition walk_leaf :: "json \<Rightarrow> string list \<Rightarrow> json \<Rightarrow> outcome" where
  "walk_leaf leaf path props =
     (case getValueFromPath (Some props) path of
        None \<Rightarrow>
          (case setValueFromPath props path (Some leaf) of
             Inl e \<Rightarrow> (Some e, leaf, props)
           | Inr props' \<Rightarrow> (None, leaf, props'))
      | Some v \<Rightarrow> (None, if path = [] then leaf else v, props))"

fun walk :: "json \<Rightarrow> string list \<Rightarrow> json \<Rightarrow> outcome"
  and walk_fields ::
    "(string \<times> json) list \<Rightarrow> string list \<Rightarrow> json \<Rightarrow> error option \<times> (string \<times> json) list \<times> json"
  where
  "walk (JArr xs) path props = (Some ArraysNotSupported, JArr xs, props)"
| "walk (JObj kvs) path props =
     (case walk_fields kvs path props of (e, kvs', props') \<Rightarrow> (e, JObj kvs', props'))"
| "walk JNull path props = (None, JNull, props)"
| "walk (JBool b) path props = walk_leaf (JBool b) path props"
| "walk (JNum n) path props = walk_leaf (JNum n) path props"
| "walk (JStr s) path props = walk_leaf (JStr s) path props"
| "walk_fields [] path props = (None, [], props)"
| "walk_fields ((k, v) # kvs) path props =
     (case walk v (path @ [k]) props of
        (Some e, v', props') \<Rightarrow> (Some e, (k, v') # kvs, props')
      | (None, v', props') \<Rightarrow>
          (case walk_fields kvs path props' of
             (e, kvs', props'') \<Rightarrow> (e, (k, v') # kvs', props'')))"

definition put_back :: "json \<Rightarrow> string list \<Rightarrow> outcome \<Rightarrow> outcome" where
  "put_back cfg path r = (case r of (e, m, props') \<Rightarrow> (e, replace_at cfg path m, props'))"

text \<open>Two paths diverge when they differ at a key that both have.\<close>

fun diverge :: "string list \<Rightarrow> string list \<Rightarrow> bool" where
  "diverge (a # p) (b # q) = (if a = b then diverge p q else True)"
| "diverge p q = False"

text \<open>
  The values that \<open>loadConfig\<close> treats as leaves: \<^verbatim>\<open>typeof thing\<close> is not \<^verbatim>\<open>'object'\<close>, which
  leaves out \<^verbatim>\<open>null\<close>.
\<close>

fun leafy :: "json \<Rightarrow> bool" where
  "leafy (JBool b) = True"
| "leafy (JNum n) = True"
| "leafy (JStr s) = True"
| "leafy v = False"

text \<open>The paths of a value that lead, through objects, to a leaf.\<close>

fun leaf_paths :: "json \<Rightarrow> string list list" where
  "leaf_paths (JObj kvs) = concat (map (\<lambda>(k, v). map ((#) k) (leaf_paths v)) kvs)"
| "leaf_paths v = (if leafy v then [[]] else [])"


text \<open>The first step of \<open>init\<close>: the file exists afterwards.\<close>

definition ensured :: "disk \<Rightarrow> disk" where
  "ensured d = (if \<not> existsSync d then writeFileSync d Blank else d)"

text \<open>The text that \<open>init\<close> reads: that of the file, or the empty text of a file just created.\<close>

definition text_read :: "disk \<Rightarrow> file_text" where
  "text_read d = (case content d of None \<Rightarrow> Blank | Some t \<Rightarrow> t)"

text \<open>
  Whether \<open>setValueFromPath\<close> can write at a path: every value it has to assign a property
  to on the way is an object.
\<close>

fun is_obj :: "json \<Rightarrow> bool" where
  "is_obj (JObj kvs) = True"
| "is_obj v = False"

fun settable :: "json \<Rightarrow> string list \<Rightarrow> bool" where
  "settable t [] = True"
| "settable t [k] = is_obj t"
| "settable t (k # p) =
     (if falsy_opt (own_prop t k) then is_obj t
      else (case own_prop t k of None \<Rightarrow> False | Some c \<Rightarrow> settable c p))"

text \<open>Every leaf path of the default structure can be written in the persisted structure.\<close>

definition leaves_settable :: "json \<Rightarrow> json \<Rightarrow> bool" where
  "leaves_settable D P = list_all (settable P) (leaf_paths D)"

text \<open>
  No key of the structure, at any depth, names a member of a standard prototype, and
  none is an array index (a decimal numeral): on such a structure every \<^verbatim>\<open>thing[next]\<close> of
  the reconciliation is decided by own properties, and a property that the
  reconciliation adds to an object comes last in the enumeration of its properties.
\<close>

definition builtin_names :: "string list" where
  "builtin_names = Object_prototype @ Array_prototype @ String_prototype @ Number_prototype"

definition integer_like :: "string \<Rightarrow> bool" where
  "integer_like k =
     (k \<noteq> [] \<and> list_all (\<lambda>c. c \<in> set ''0123456789'') k \<and> (hd k \<noteq> CHR ''0'' \<or> k = ''0''))"

definition plain_key :: "string \<Rightarrow> bool" where
  "plain_key k = (k \<notin> set builtin_names \<and> \<not> integer_like k)"

fun plain_keys :: "json \<Rightarrow> bool" where
  "plain_keys (JObj kvs) =
     (list_all plain_key (map fst kvs) \<and> list_all plain_keys (map snd kvs))"
| "plain_keys v = True"

section \<open>Objects by reference\<close>

text \<open>
  The value model above leaves out which objects are shared. Here an object is an
  address into a heap, as a JavaScript object is a reference: a write through one
  reference is seen through every other. The functions of the class are written again
  on this heap, statement by statement, to settle what reconciliation does to the
  object the caller hands to the constructor. As in the value model, a property is
  read from the own properties, and a write of a property to an array is not followed.
\<close>

type_synonym addr = nat

datatype hval =
    HNull
  | HBool bool
  | HNum number
  | HStr string
  | HRef addr

datatype hobj =
    HObj "(string \<times> hval) list"
  | HArr "hval list"

type_synonym heap = "hobj list"

definition heap_at :: "heap \<Rightarrow> addr \<Rightarrow> hobj option" where
  "heap_at h a = (if a < length h then Some (h ! a) else None)"

fun h_falsy :: "hval \<Rightarrow> bool" where
  "h_falsy HNull = True"
| "h_falsy (HBool b) = (\<not> b)"
| "h_falsy (HNum n) = falsy_number n"
| "h_falsy (HStr s) = (s = [])"
| "h_falsy (HRef a) = False"

fun h_falsy_opt :: "hval option \<Rightarrow> bool" where
  "h_falsy_opt None = True"
| "h_falsy_opt (Some v) = h_falsy v"

fun h_own_prop :: "heap \<Rightarrow> hval \<Rightarrow> string \<Rightarrow> hval option" where
  "h_own_prop h (HRef a) k =
     (case heap_at h a of
        None \<Rightarrow> None
      | Some (HObj kvs) \<Rightarrow> map_of kvs k
      | Some (HArr xs) \<Rightarrow>
          (if k = ''length'' then Some (HNum (Finite (int (length xs)))) else map_of (entries xs) k))"
| "h_own_prop h (HStr s) k =
     (if k = ''length'' then Some (HNum (Finite (int (length s))))
      else map_of (entries (map (\<lambda>c. HStr [c]) s)) k)"
| "h_own_prop h v k = None"

fun h_getValueFromPath :: "heap \<Rightarrow> hval option \<Rightarrow> string list \<Rightarrow> hval option" where
  "h_getValueFromPath h thing [] = thing"
| "h_getValueFromPath h None (next # path) = None"
| "h_getValueFromPath h (Some t) (next # path) =
     (if h_falsy t then None else h_getValueFromPath h (h_own_prop h t next) path)"

fun h_assign :: "heap \<Rightarrow> hval \<Rightarrow> string \<Rightarrow> hval option \<Rightarrow> error + heap" where
  "h_assign h (HRef a) k v =
     (case heap_at h a of
        None \<Rightarrow> Inl TypeError
      | Some (HObj kvs) \<Rightarrow>
          (case v of
             Some x \<Rightarrow> Inr (h[a := HObj (AList.update k x kvs)])
           | None \<Rightarrow> Inr (h[a := HObj (AList.delete k kvs)]))
      | Some (HArr xs) \<Rightarrow> Inl ArrayPropertyWrite)"
| "h_assign h t k v = Inl TypeError"

text \<open>
  \<^verbatim>\<open>thing[next] = {}\<close> allocates the new object at the end of the heap; the recursive call
  then works on \<^verbatim>\<open>thing[next]\<close>, the object itself, not on a copy.
\<close>

fun h_setValueFromPath :: "heap \<Rightarrow> hval \<Rightarrow> string list \<Rightarrow> hval option \<Rightarrow> error + heap" where
  "h_setValueFromPath h thing [] setThing = Inr h"
| "h_setValueFromPath h thing [next] setThing = h_assign h thing next setThing"
| "h_setValueFromPath h thing (next # path) setThing =
     (if h_falsy_opt (h_own_prop h thing next) then
        (case h_assign (h @ [HObj []]) thing next (Some (HRef (length h))) of
           Inl e \<Rightarrow> Inl e
         | Inr h' \<Rightarrow> h_setValueFromPath h' (HRef (length h)) path setThing)
      else
        (case h_own_prop h thing next of
           None \<Rightarrow> Inl TypeError
         | Some child \<Rightarrow> h_setValueFromPath h child path setThing))"

fun h_isArray :: "heap \<Rightarrow> hval option \<Rightarrow> bool" where
  "h_isArray h (Some (HRef a)) = (case heap_at h a of Some (HArr xs) \<Rightarrow> True | _ \<Rightarrow> False)"
| "h_isArray h thing = False"

fun h_typeof_object :: "hval option \<Rightarrow> bool" where
  "h_typeof_object (Some HNull) = True"
| "h_typeof_object (Some (HRef a)) = True"
| "h_typeof_object thing = False"

fun h_keys_in :: "heap \<Rightarrow> hval option \<Rightarrow> string list" where
  "h_keys_in h (Some (HRef a)) =
     (case heap_at h a of
        Some (HObj kvs) \<Rightarrow> map fst kvs
      | Some (HArr xs) \<Rightarrow> map index_key [0 ..< length xs]
      | None \<Rightarrow> [])"
| "h_keys_in h thing = []"

type_synonym h_outcome = "error option \<times> heap"

fun h_for_in ::
  "(heap \<Rightarrow> string list \<Rightarrow> h_outcome option) \<Rightarrow> string list \<Rightarrow> heap \<Rightarrow> string list \<Rightarrow>
   h_outcome option" where
  "h_for_in body [] h path = Some (None, h)"
| "h_for_in body (key # keys) h path =
     (case body h (path @ [key]) of
        None \<Rightarrow> None
      | Some (Some e, h') \<Rightarrow> Some (Some e, h')
      | Some (None, h') \<Rightarrow> h_for_in body keys h' path)"

text \<open>
  \<open>loadConfig\<close> on the heap: \<open>cfg\<close> is the reference in \<^verbatim>\<open>this.config\<close>, \<open>propsValues\<close> the
  reference to the parsed file. Neither reference changes; the objects they lead to do.
\<close>

fun h_loadConfig :: "nat \<Rightarrow> hval \<Rightarrow> hval \<Rightarrow> heap \<Rightarrow> string list \<Rightarrow> h_outcome option" where
  "h_loadConfig 0 cfg propsValues h path = None"
| "h_loadConfig (Suc n) cfg propsValues h path =
     (let thing = h_getValueFromPath h (Some cfg) path in
      if h_isArray h thing then Some (Some ArraysNotSupported, h)
      else if h_typeof_object thing then
        h_for_in (\<lambda>h' pa. h_loadConfig n cfg propsValues h' pa) (h_keys_in h thing) h path
      else
        (let propValueThing = h_getValueFromPath h (Some propsValues) path in
         if propValueThing = None then
           (case h_setValueFromPath h propsValues path thing of
              Inl e \<Rightarrow> Some (Some e, h)
            | Inr h' \<Rightarrow> Some (None, h'))
         else
           (case h_setValueFromPath h cfg path propValueThing of
              Inl e \<Rightarrow> Some (Some e, h)
            | Inr h' \<Rightarrow> Some (None, h'))))"




text \<open>
  Building a JSON value in the heap, as an object literal and \<^verbatim>\<open>JSON.parse\<close> do: every
  object is new.
\<close>

fun alloc :: "heap \<Rightarrow> json \<Rightarrow> heap \<times> hval"
  and alloc_fields :: "heap \<Rightarrow> (string \<times> json) list \<Rightarrow> heap \<times> (string \<times> hval) list"
  and alloc_list :: "heap \<Rightarrow> json list \<Rightarrow> heap \<times> hval list"
  where
  "alloc h JNull = (h, HNull)"
| "alloc h (JBool b) = (h, HBool b)"
| "alloc h (JNum n) = (h, HNum n)"
| "alloc h (JStr s) = (h, HStr s)"
| "alloc h (JObj kvs) =
     (case alloc_fields h kvs of (h', hkvs) \<Rightarrow> (h' @ [HObj hkvs], HRef (length h')))"
| "alloc h (JArr xs) =
     (case alloc_list h xs of (h', hxs) \<Rightarrow> (h' @ [HArr hxs], HRef (length h')))"
| "alloc_fields h [] = (h, [])"
| "alloc_fields h ((k, v) # kvs) =
     (case alloc h v of (h1, hv) \<Rightarrow>
        (case alloc_fields h1 kvs of (h2, hkvs) \<Rightarrow> (h2, (k, hv) # hkvs)))"
| "alloc_list h [] = (h, [])"
| "alloc_list h (v # vs) =
     (case alloc h v of (h1, hv) \<Rightarrow>
        (case alloc_list h1 vs of (h2, hvs) \<Rightarrow> (h2, hv # hvs)))"

text \<open>
  The JSON value a reference leads to, as \<^verbatim>\<open>JSON.stringify\<close> and a deep copy read it; the
  first argument bounds the depth, and \<open>None\<close> is a structure deeper than the bound.
\<close>

fun read_back :: "nat \<Rightarrow> heap \<Rightarrow> hval \<Rightarrow> json option"
  and read_fields :: "nat \<Rightarrow> heap \<Rightarrow> (string \<times> hval) list \<Rightarrow> (string \<times> json) list option"
  and read_list :: "nat \<Rightarrow> heap \<Rightarrow> hval list \<Rightarrow> json list option"
  where
  "read_back n h HNull = Some JNull"
| "read_back n h (HBool b) = Some (JBool b)"
| "read_back n h (HNum i) = Some (JNum i)"
| "read_back n h (HStr s) = Some (JStr s)"
| "read_back 0 h (HRef a) = None"
| "read_back (Suc n) h (HRef a) =
     (case heap_at h a of
        None \<Rightarrow> None
      | Some (HObj kvs) \<Rightarrow> map_option JObj (read_fields n h kvs)
      | Some (HArr xs) \<Rightarrow> map_option JArr (read_list n h xs))"
| "read_fields n h [] = Some []"
| "read_fields n h ((k, v) # kvs) =
     (case read_back n h v of
        None \<Rightarrow> None
      | Some j \<Rightarrow> map_option ((#) (k, j)) (read_fields n h kvs))"
| "read_list n h [] = Some []"
| "read_list n h (v # vs) =
     (case read_back n h v of
        None \<Rightarrow> None
      | Some j \<Rightarrow> map_option ((#) j) (read_list n h vs))"

text \<open>The heap value of a scalar.\<close>

fun embed :: "json \<Rightarrow> hval" where
  "embed (JBool b) = HBool b"
| "embed (JNum n) = HNum n"
| "embed (JStr s) = HStr s"
| "embed v = HNull"

text \<open>A scalar, or an array of scalars.\<close>

fun flat :: "json \<Rightarrow> bool" where
  "flat (JObj kvs) = False"
| "flat (JArr xs) = list_all scalar xs"
| "flat v = True"

text \<open>
  The persisted values found at the leaf paths of the default structure are scalars
  or arrays of scalars.
\<close>

definition flat_overrides :: "json \<Rightarrow> json \<Rightarrow> bool" where
  "flat_overrides D P =
     list_all (\<lambda>q. case getValueFromPath (Some P) q of None \<Rightarrow> True | Some v \<Rightarrow> flat v)
       (leaf_paths D)"

text \<open>
  \<open>owns h v t F\<close>: in the heap \<open>h\<close> the value \<open>v\<close> stands for the JSON value \<open>t\<close>, and the
  objects it is made of are those at the addresses \<open>F\<close>, each reached once: no object is
  shared between two places of the structure. The arrays of \<open>t\<close> are arrays of scalars;
  an array is not counted in \<open>F\<close> and may be shared, for no write into an array is
  followed.
\<close>

inductive owns :: "heap \<Rightarrow> hval \<Rightarrow> json \<Rightarrow> addr set \<Rightarrow> bool"
  and owns_fields ::
    "heap \<Rightarrow> (string \<times> hval) list \<Rightarrow> (string \<times> json) list \<Rightarrow> addr set \<Rightarrow> bool"
  where
  owns_null: "owns h HNull JNull {}"
| owns_bool: "owns h (HBool b) (JBool b) {}"
| owns_num: "owns h (HNum n) (JNum n) {}"
| owns_str: "owns h (HStr s) (JStr s) {}"
| owns_obj:
    "heap_at h a = Some (HObj hkvs) \<Longrightarrow> owns_fields h hkvs kvs F \<Longrightarrow> a \<notin> F \<Longrightarrow>
     owns h (HRef a) (JObj kvs) (insert a F)"
| owns_arr:
    "heap_at h a = Some (HArr hxs) \<Longrightarrow> list_all2 (\<lambda>v x. scalar x \<and> v = embed x) hxs xs \<Longrightarrow>
     owns h (HRef a) (JArr xs) {}"
| owns_nil: "owns_fields h [] [] {}"
| owns_cons:
    "owns h v t F1 \<Longrightarrow> owns_fields h hkvs kvs F2 \<Longrightarrow> F1 \<inter> F2 = {} \<Longrightarrow>
     owns_fields h ((k, v) # hkvs) ((k, t) # kvs) (F1 \<union> F2)"

text \<open>Every field that holds a reference in \<open>h\<close> holds the same reference in \<open>h'\<close>.\<close>

definition refs_kept :: "heap \<Rightarrow> heap \<Rightarrow> bool" where
  "refs_kept h h' =
     (\<forall>a kvs k b. heap_at h a = Some (HObj kvs) \<and> map_of kvs k = Some (HRef b) \<longrightarrow>
        (\<exists>kvs'. heap_at h' a = Some (HObj kvs') \<and> map_of kvs' k = Some (HRef b)))"

text \<open>The objects at the addresses outside \<open>F\<close> are the same in \<open>h\<close> and \<open>h'\<close>.\<close>

definition same_outside :: "addr set \<Rightarrow> heap \<Rightarrow> heap \<Rightarrow> bool" where
  "same_outside F h h' = (\<forall>a. a < length h \<and> a \<notin> F \<longrightarrow> heap_at h' a = heap_at h a)"

text \<open>The arrays of \<open>h\<close> are in \<open>h'\<close> as they are in \<open>h\<close>.\<close>

definition arrays_kept :: "heap \<Rightarrow> heap \<Rightarrow> bool" where
  "arrays_kept h h' = (\<forall>a xs. heap_at h a = Some (HArr xs) \<longrightarrow> heap_at h' a = Some (HArr xs))"

text \<open>
  What holds of the heap \<open>h'\<close> after a step that started in \<open>h\<close>, where \<open>cfg\<close> and \<open>pv\<close> stood
  for two structures with the disjoint footprints \<open>Fc\<close> and \<open>Fp\<close>: they stand for \<open>D'\<close> and
  \<open>P'\<close>, still apart; nothing outside the old footprints has changed; no reference held
  in a field has been overwritten, and no array.
\<close>

definition sim_after ::
  "heap \<Rightarrow> hval \<Rightarrow> hval \<Rightarrow> addr set \<Rightarrow> addr set \<Rightarrow> heap \<Rightarrow> json \<Rightarrow> json \<Rightarrow> bool" where
  "sim_after h cfg pv Fc Fp h' D' P' =
     (\<exists>Fc' Fp'. owns h' cfg D' Fc' \<and> owns h' pv P' Fp' \<and> Fc' \<inter> Fp' = {}
        \<and> length h \<le> length h' \<and> Fc' \<union> Fp' \<subseteq> Fc \<union> Fp \<union> {length h..<length h'}
        \<and> same_outside (Fc \<union> Fp) h h' \<and> refs_kept h h' \<and> arrays_kept h h')"
declare walk_leaf_def [simp]

section \<open>Properties of the path accessor\<close>

lemma get_None: "getValueFromPath None p = None"
  by (cases p) simp_all


lemma get_lookup: "lookup t p = Some v \<Longrightarrow> getValueFromPath (Some t) p = Some v"
  by (induction t p rule: lookup.induct) (auto split: option.splits)



text \<open>
  C7, as amended. The set operation is a no-op on the empty path. With one key left it
  assigns the value at that key of an object, overwriting it or creating it, and leaves
  the other keys alone. With more keys left it descends into the value at the first key
  when that value is truthy; when the key is absent or its value is falsy (null, false,
  a zero or the empty string) it stores an empty object at the key, replacing the falsy
  value, and descends into that. Where a key may be absent it is taken to name no
  member of a standard prototype, which the source would find in place of a missing
  property, and to be no array index, which would not come last among the keys.
\<close>

theorem setValueFromPath_spec:
  "setValueFromPath thing [] setThing = Inr thing
   \<and> (plain_key k \<longrightarrow>
        setValueFromPath (JObj kvs) [k] (Some v) = Inr (JObj (AList.update k v kvs))
        \<and> map_of (AList.update k v kvs) k = Some v
        \<and> (k' \<noteq> k \<longrightarrow> map_of (AList.update k v kvs) k' = map_of kvs k'))
   \<and> (falsy_opt (map_of kvs1 k1) \<and> plain_key k1 \<longrightarrow>
        setValueFromPath (JObj kvs1) (k1 # n1 # p1) setThing =
          (case setValueFromPath (JObj []) (n1 # p1) setThing of
             Inl e \<Rightarrow> Inl e
           | Inr c \<Rightarrow> Inr (JObj (AList.update k1 c kvs1))))
   \<and> (map_of kvs2 k2 = Some child \<and> \<not> falsy child \<longrightarrow>
        setValueFromPath (JObj kvs2) (k2 # n2 # p2) setThing =
          (case setValueFromPath child (n2 # p2) setThing of
             Inl e \<Rightarrow> Inl e
           | Inr c \<Rightarrow> Inr (JObj (AList.update k2 c kvs2))))"
  by (auto simp: update_conv' split: sum.splits)

theorem setValueFromPath_spec_witness:
  "plain_key ''c''
   \<and> setValueFromPath (JObj [(''a'', JNull), (''b'', JObj [(''x'', JNum (Finite 1))])]) [''c''] (Some (JNum (Finite 2)))
     = Inr (JObj [(''a'', JNull), (''b'', JObj [(''x'', JNum (Finite 1))]), (''c'', JNum (Finite 2))])
   \<and> falsy_opt (map_of [(''a'', JNull), (''b'', JObj [(''x'', JNum (Finite 1))])] ''a'')
   \<and> plain_key ''a''
   \<and> setValueFromPath (JObj [(''a'', JNull), (''b'', JObj [(''x'', JNum (Finite 1))])]) [''a'', ''y''] (Some (JNum (Finite 2)))
     = Inr (JObj [(''a'', JObj [(''y'', JNum (Finite 2))]), (''b'', JObj [(''x'', JNum (Finite 1))])])
   \<and> map_of [(''a'', JNull), (''b'', JObj [(''x'', JNum (Finite 1))])] ''b'' = Some (JObj [(''x'', JNum (Finite 1))])
   \<and> setValueFromPath (JObj [(''a'', JNull), (''b'', JObj [(''x'', JNum (Finite 1))])]) [''b'', ''y''] (Some (JNum (Finite 2)))
     = Inr (JObj [(''a'', JNull), (''b'', JObj [(''x'', JNum (Finite 1)), (''y'', JNum (Finite 2))])])"
proof -
  let ?kvs = "[(''a'', JNull), (''b'', JObj [(''x'', JNum (Finite 1))])]"
  have i: "plain_key ''c''" "plain_key ''a''" by code_simp+
  show ?thesis
    using setValueFromPath_spec
      [of JNull "Some (JNum (Finite 2))" "''c''" ?kvs "JNum (Finite 2)"
          "''a''" ?kvs "''a''" "''y''" "[]"
          ?kvs "''b''" "JObj [(''x'', JNum (Finite 1))]"
          "''y''" "[]"] i
    by simp
qed

text \<open>
  The claim as stated fails: a stored \<^verbatim>\<open>0\<close> at an intermediate key is replaced by an
  object.
\<close>

theorem set_replaces_falsy_intermediate:
  "lookup (JObj [(''a'', JNum (Finite 0))]) [''a''] = Some (JNum (Finite 0))
   \<and> setValueFromPath (JObj [(''a'', JNum (Finite 0))]) [''a'', ''b''] (Some (JNum (Finite 1)))
       = Inr (JObj [(''a'', JObj [(''b'', JNum (Finite 1))])])
   \<and> lookup (JObj [(''a'', JObj [(''b'', JNum (Finite 1))])]) [''a''] \<noteq> Some (JNum (Finite 0))"
  by simp

subsection \<open>Writes and later reads\<close>


lemma update_length: "k \<in> fst ` set al \<Longrightarrow> length (AList.update k v al) = length al"
  by (induction al) auto

lemma entries_length: "length (entries xs) = length xs"
  by (simp add: entries_def)

lemma entries_update:
  assumes "map_of (entries xs) k = Some c"
  shows "entries (map snd (AList.update k c' (entries xs))) = AList.update k c' (entries xs)"
proof -
  let ?al = "AList.update k c' (entries xs)"
  have k: "k \<in> fst ` set (entries xs)"
    using map_of_SomeD[OF assms] by force
  then have keys: "map fst ?al = map fst (entries xs)"
    by (simp add: update_keys)
  have len: "length ?al = length xs"
    using update_length[OF k] by (simp add: entries_def)
  have "entries (map snd ?al) = zip (map fst ?al) (map snd ?al)"
    using keys len by (simp add: entries_def)
  then show ?thesis by (simp add: zip_map_fst_snd)
qed

lemma own_prop_scalar:
  "scalar t \<Longrightarrow> own_prop t k = Some c \<Longrightarrow> scalar c"
  by (cases t) (auto split: if_splits dest!: map_of_SomeD set_zip_rightD simp: entries_def)

lemma assign_scalar: "scalar t \<Longrightarrow> assign t k v = Inl TypeError"
  by (cases t) simp_all

lemma set_scalar_fails:
  "p \<noteq> [] \<Longrightarrow> scalar t \<Longrightarrow> \<exists>e. setValueFromPath t p v = Inl e"
proof (induction p arbitrary: t)
  case Nil then show ?case by simp
next
  case (Cons k p)
  show ?case
  proof (cases p)
    case Nil then show ?thesis using Cons.prems by (simp add: assign_scalar)
  next
    case (Cons k' p')
    have "\<exists>e. setValueFromPath c p v = Inl e" if "own_prop t k = Some c" for c
      using that Cons.IH Cons.prems local.Cons own_prop_scalar by blast
    then show ?thesis using local.Cons Cons.prems
      by (auto split: option.splits sum.splits simp: assign_scalar)
  qed
qed

lemma own_prop_put_same:
  "own_prop t k = Some c \<Longrightarrow> \<not> scalar t \<Longrightarrow> (\<forall>xs. t = JArr xs \<longrightarrow> k \<noteq> ''length'') \<Longrightarrow> own_prop (put_child t k c') k = Some c'"
  by (cases t) (auto simp: entries_update update_conv')

lemma own_prop_put_other:
  "own_prop t k = Some c \<Longrightarrow> (\<forall>xs. t = JArr xs \<longrightarrow> k \<noteq> ''length'') \<Longrightarrow> k' \<noteq> k \<Longrightarrow> own_prop (put_child t k c') k' = own_prop t k'"
proof (cases t)
  case (JArr xs)
  assume a: "own_prop t k = Some c" "\<forall>xs. t = JArr xs \<longrightarrow> k \<noteq> ''length''" "k' \<noteq> k"
  then have m: "map_of (entries xs) k = Some c" using JArr by (auto split: if_splits)
  have "k \<in> fst ` set (entries xs)"
    using map_of_SomeD[OF m] by force
  then have "length (AList.update k c' (entries xs)) = length xs"
    by (simp add: update_length entries_length)
  then show ?thesis using JArr a m by (simp add: entries_update update_conv')
qed (auto simp: update_conv')


lemma put_child_truthy: "\<not> scalar t \<Longrightarrow> \<not> falsy (put_child t k c)"
  by (cases t) simp_all

lemma get_falsy: "falsy x \<Longrightarrow> p \<noteq> [] \<Longrightarrow> getValueFromPath (Some x) p = None"
  by (cases p) simp_all

lemma get_falsy_opt: "falsy_opt x \<Longrightarrow> p \<noteq> [] \<Longrightarrow> getValueFromPath x p = None"
  by (cases x) (simp_all add: get_None get_falsy)

lemma set_step:
  assumes "setValueFromPath t (k # k' # p) v = Inr t'"
  obtains (vivify) kvs c' where "t = JObj kvs" "falsy_opt (map_of kvs k)"
      "setValueFromPath (JObj []) (k' # p) v = Inr c'" "t' = JObj (AList.update k c' kvs)"
  | (descend) c c' where "own_prop t k = Some c" "\<not> falsy c"
      "setValueFromPath c (k' # p) v = Inr c'" "t' = put_child t k c'" "\<not> scalar t"
      "\<forall>xs. t = JArr xs \<longrightarrow> k \<noteq> ''length''"
proof (cases "falsy_opt (own_prop t k)")
  case True
  with assms obtain thing' c' where a: "assign t k (Some (JObj [])) = Inr thing'"
    and s: "setValueFromPath (JObj []) (k' # p) v = Inr c'" and t': "t' = put_child thing' k c'"
    by (auto split: sum.splits)
  from a obtain kvs where "t = JObj kvs" "thing' = JObj (AList.update k (JObj []) kvs)"
    by (cases t) auto
  with True s t' show ?thesis by (intro vivify[of kvs c']) auto
next
  case False
  with assms obtain c c' where c: "own_prop t k = Some c"
    and s: "setValueFromPath c (k' # p) v = Inr c'" and t': "t' = put_child t k c'"
    by (auto split: sum.splits option.splits)
  have nf: "\<not> falsy c" using False c by simp
  have ns: "\<not> scalar c" using s set_scalar_fails[of "k' # p" c v] by auto
  then have "\<not> scalar t" using c own_prop_scalar by blast
  moreover have "\<forall>xs. t = JArr xs \<longrightarrow> k \<noteq> ''length''"
    using c ns by auto
  ultimately show ?thesis using c nf s t' by (intro descend[of c c']) auto
qed

lemma get_set_same:
  "setValueFromPath t p (Some v) = Inr t' \<Longrightarrow> p \<noteq> [] \<Longrightarrow> getValueFromPath (Some t') p = Some v"
proof (induction p arbitrary: t t')
  case Nil then show ?case by simp
next
  case (Cons k p)
  show ?case
  proof (cases p)
    case Nil
    with Cons.prems obtain kvs where "t = JObj kvs" "t' = JObj (AList.update k v kvs)"
      by (cases t) auto
    then show ?thesis using Nil by (simp add: update_conv')
  next
    case (Cons k' p')
    from Cons.prems(1)[unfolded Cons] show ?thesis
    proof (cases rule: set_step)
      case (vivify kvs c')
      then show ?thesis using Cons.IH[of "JObj []" c'] Cons by (simp add: update_conv')
    next
      case (descend c c')
      then show ?thesis using Cons.IH[of c c'] Cons
        by (simp add: put_child_truthy own_prop_put_same)
    qed
  qed
qed

lemma get_set_diverge:
  "setValueFromPath t q v = Inr t' \<Longrightarrow> diverge p q \<Longrightarrow>
   getValueFromPath (Some t') p = getValueFromPath (Some t) p"
proof (induction q arbitrary: p t t')
  case Nil then show ?case by simp
next
  case (Cons b q)
  from Cons.prems(2) obtain a p1 where p: "p = a # p1" by (cases p) auto
  show ?case
  proof (cases q)
    case Nil
    with Cons.prems p have ab: "a \<noteq> b" by (auto split: if_splits)
    from Cons.prems(1) Nil obtain kvs where t: "t = JObj kvs"
      and t': "t' = JObj (AList.update b (the v) kvs) \<or> t' = JObj (AList.delete b kvs)"
      by (cases t; cases v) auto
    then show ?thesis using p ab by (auto simp: update_conv' delete_conv')
  next
    case (Cons k' q2)
    from Cons.prems(1)[unfolded Cons] show ?thesis
    proof (cases rule: set_step)
      case (vivify kvs c')
      show ?thesis
      proof (cases "a = b")
        case True
        then have d: "diverge p1 q" using Cons.prems(2) p by simp
        then have ne: "p1 \<noteq> []" by (cases p1) auto
        have "getValueFromPath (Some c') p1 = getValueFromPath (Some (JObj [])) p1"
          using Cons.IH[OF _ d, of "JObj []" c'] vivify Cons by simp
        also have "\<dots> = None" using ne by (cases p1) (simp_all add: get_None)
        finally show ?thesis using vivify True p ne
          by (simp add: update_conv' get_falsy_opt)
      next
        case False
        then show ?thesis using vivify p by (simp add: update_conv')
      qed
    next
      case (descend c c')
      show ?thesis
      proof (cases "a = b")
        case True
        then have d: "diverge p1 q" using Cons.prems(2) p by simp
        have "getValueFromPath (Some c') p1 = getValueFromPath (Some c) p1"
          using Cons.IH[OF _ d, of c c'] descend Cons by simp
        moreover have "\<not> falsy t" using descend(5) by (cases t) auto
        ultimately show ?thesis using descend True p
          by (simp add: put_child_truthy own_prop_put_same)
      next
        case False
        moreover have "\<not> falsy t" using descend(5) by (cases t) auto
        ultimately show ?thesis using descend p
          by (simp add: put_child_truthy own_prop_put_other)
      qed
    qed
  qed
qed

subsection \<open>Replacing the value at a path\<close>

lemma lookup_append:
  "lookup t (p @ q) = (case lookup t p of None \<Rightarrow> None | Some c \<Rightarrow> lookup c q)"
  by (induction t p rule: lookup.induct) (auto split: option.splits)

lemma lookup_truthy: "lookup t (k # p) = Some v \<Longrightarrow> \<not> falsy t"
  by (cases t) auto

lemma set_cfg:
  "lookup cfg p = Some old \<Longrightarrow>
   setValueFromPath cfg p (Some v) = Inr (if p = [] then cfg else replace_at cfg p v)"
proof (induction cfg p arbitrary: old rule: lookup.induct)
  case (1 t)
  show ?case by simp
next
  case (2 kvs k p)
  from "2.prems" obtain c where c: "map_of kvs k = Some c" "lookup c p = Some old"
    by (auto split: option.splits)
  show ?case
  proof (cases p)
    case Nil
    then show ?thesis using c by simp
  next
    case (Cons k' p')
    have "\<not> falsy c" using c(2) Cons lookup_truthy by blast
    then show ?thesis using "2.IH"[OF c] c Cons by simp
  qed
qed simp_all

lemma replace_at_same: "lookup cfg p = Some t \<Longrightarrow> replace_at cfg p t = cfg"
  by (induction cfg p rule: lookup.induct) (auto split: option.splits simp: update_triv)

lemma lookup_replace_at:
  "lookup cfg p = Some old \<Longrightarrow> lookup (replace_at cfg p m) p = Some m"
  by (induction cfg p rule: lookup.induct) (auto split: option.splits simp: update_conv')

lemma replace_at_twice:
  "lookup cfg p = Some old \<Longrightarrow> replace_at (replace_at cfg p a) p b = replace_at cfg p b"
  by (induction cfg p rule: lookup.induct) (auto split: option.splits simp: update_conv')

lemma replace_at_append:
  "lookup cfg p = Some (JObj kvs) \<Longrightarrow> map_of kvs k = Some c \<Longrightarrow>
   replace_at cfg (p @ [k]) m = replace_at cfg p (JObj (AList.update k m kvs))"
  by (induction cfg p rule: lookup.induct) (auto split: option.splits)

lemma update_middle:
  "k \<notin> fst ` set done \<Longrightarrow> AList.update k m (done @ (k, v) # kvs) = done @ (k, m) # kvs"
  by (induction "done") auto

lemma map_of_middle:
  "k \<notin> fst ` set done \<Longrightarrow> map_of (done @ (k, v) # kvs) k = Some v"
  by (induction "done") auto

subsection \<open>\<open>loadConfig\<close> computes \<open>walk\<close>\<close>

lemma for_in_walk:
  assumes body: "\<And>k v cfg props. (k, v) \<in> set kvs \<Longrightarrow> lookup cfg (path @ [k]) = Some v \<Longrightarrow>
      body cfg props (path @ [k]) = Some (put_back cfg (path @ [k]) (walk v (path @ [k]) props))"
    and "lookup cfg path = Some (JObj (done @ kvs))"
    and "distinct (map fst (done @ kvs))"
  shows "for_in body (map fst kvs) cfg props path =
    Some (case walk_fields kvs path props of
            (e, kvs', props') \<Rightarrow> (e, replace_at cfg path (JObj (done @ kvs')), props'))"
  using assms
proof (induction kvs arbitrary: "done" cfg props)
  case Nil
  then show ?case by (simp add: replace_at_same)
next
  case (Cons kv kvs)
  obtain k v where kv: "kv = (k, v)" by (cases kv)
  have notin: "k \<notin> fst ` set done"
    using Cons.prems(3) kv by auto
  have mk: "map_of (done @ (k, v) # kvs) k = Some v"
    by (rule map_of_middle[OF notin])
  have lk: "lookup cfg (path @ [k]) = Some v"
    using Cons.prems(2) kv mk by (simp add: lookup_append del: map_of_append)
  obtain e m props1 where w: "walk v (path @ [k]) props = (e, m, props1)"
    by (cases "walk v (path @ [k]) props")
  have b: "body cfg props (path @ [k]) = Some (e, replace_at cfg (path @ [k]) m, props1)"
    using Cons.prems(1)[of k v cfg props] kv lk w by (simp add: put_back_def)
  have r: "replace_at cfg (path @ [k]) m = replace_at cfg path (JObj (done @ (k, m) # kvs))"
    using replace_at_append[OF Cons.prems(2)[unfolded kv] mk, of m] update_middle[OF notin, of m v kvs]
    by simp
  show ?case
  proof (cases e)
    case (Some err)
    then show ?thesis using b w r kv by simp
  next
    case None
    let ?cfg1 = "replace_at cfg path (JObj (done @ (k, m) # kvs))"
    have l1: "lookup ?cfg1 path = Some (JObj ((done @ [(k, m)]) @ kvs))"
      using lookup_replace_at[OF Cons.prems(2)] by simp
    have d1: "distinct (map fst ((done @ [(k, m)]) @ kvs))"
      using Cons.prems(3) kv by simp
    have "for_in body (map fst kvs) ?cfg1 props1 path =
      Some (case walk_fields kvs path props1 of
              (e, kvs', props') \<Rightarrow> (e, replace_at ?cfg1 path (JObj ((done @ [(k, m)]) @ kvs')), props'))"
      by (rule Cons.IH[OF _ l1 d1]) (use Cons.prems(1) in auto)
    then show ?thesis using b w r kv None
      by (simp add: replace_at_twice[OF Cons.prems(2)] split: prod.splits)
  qed
qed

lemma depth_child: "(k, v) \<in> set kvs \<Longrightarrow> depth v < depth (JObj kvs)"
proof -
  have "x \<in> set xs \<Longrightarrow> x \<le> foldr max xs 0" for x :: nat and xs
    by (induction xs) auto
  moreover assume "(k, v) \<in> set kvs"
  then have "depth v \<in> set (map depth (map snd kvs))" by force
  ultimately show ?thesis by (simp add: less_Suc_eq_le) 
qed

lemma wf_child: "wf_json (JObj kvs) \<Longrightarrow> (k, v) \<in> set kvs \<Longrightarrow> wf_json v"
  by (auto simp: list_all_iff)

lemma loadConfig_walk:
  "wf_json t \<Longrightarrow> lookup cfg path = Some t \<Longrightarrow> depth t \<le> n \<Longrightarrow>
   loadConfig n cfg props path = Some (put_back cfg path (walk t path props))"
proof (induction n arbitrary: t cfg props path)
  case 0
  then show ?case by (cases t) simp_all
next
  case (Suc n)
  have g: "getValueFromPath (Some cfg) path = Some t"
    using Suc.prems(2) by (rule get_lookup)
  show ?case
  proof (cases t)
    case (JObj kvs)
    have "for_in (\<lambda>c p pa. loadConfig n c p pa) (map fst kvs) cfg props path =
      Some (case walk_fields kvs path props of
              (e, kvs', props') \<Rightarrow> (e, replace_at cfg path (JObj ([] @ kvs')), props'))"
    proof (rule for_in_walk)
      fix k v cfg' props'
      assume "(k, v) \<in> set kvs" "lookup cfg' (path @ [k]) = Some v"
      moreover have "wf_json v" using Suc.prems(1) JObj calculation(1) wf_child by blast
      moreover have "depth v \<le> n" using depth_child[OF calculation(1)] Suc.prems(3) JObj by simp
      ultimately show "loadConfig n cfg' props' (path @ [k]) =
          Some (put_back cfg' (path @ [k]) (walk v (path @ [k]) props'))"
        using Suc.IH by blast
    next
      show "lookup cfg path = Some (JObj ([] @ kvs))" using Suc.prems(2) JObj by simp
      show "distinct (map fst ([] @ kvs))" using Suc.prems(1) JObj by simp
    qed
    then show ?thesis using g JObj by (simp add: put_back_def split: prod.splits)
  next
    case (JArr xs)
    then show ?thesis using g Suc.prems(2) by (simp add: put_back_def replace_at_same)
  next
    case JNull
    then show ?thesis using g Suc.prems(2) by (simp add: put_back_def replace_at_same)
  next
    case (JBool b)
    then show ?thesis using g Suc.prems(2) set_cfg[OF Suc.prems(2)]
      by (auto simp: put_back_def replace_at_same split: option.splits sum.splits)
  next
    case (JNum i)
    then show ?thesis using g Suc.prems(2) set_cfg[OF Suc.prems(2)]
      by (auto simp: put_back_def replace_at_same split: option.splits sum.splits)
  next
    case (JStr s)
    then show ?thesis using g Suc.prems(2) set_cfg[OF Suc.prems(2)]
      by (auto simp: put_back_def replace_at_same split: option.splits sum.splits)
  qed
qed

subsection \<open>What a walk reads and writes\<close>

lemma walk_leafy:
  "leafy t \<Longrightarrow> walk t path props =
     (case getValueFromPath (Some props) path of
        None \<Rightarrow>
          (case setValueFromPath props path (Some t) of
             Inl e \<Rightarrow> (Some e, t, props)
           | Inr props' \<Rightarrow> (None, t, props'))
      | Some v \<Rightarrow> (None, if path = [] then t else v, props))"
  by (cases t) auto

lemma walk_cases:
  assumes "walk t path props = (None, m, props')"
  obtains (null) "t = JNull" "m = JNull" "props' = props"
  | (obj) kvs kvs' where "t = JObj kvs" "m = JObj kvs'"
      "walk_fields kvs path props = (None, kvs', props')"
  | (written) "leafy t" "getValueFromPath (Some props) path = None"
      "setValueFromPath props path (Some t) = Inr props'" "m = t" "path \<noteq> []"
  | (found) v where "leafy t" "getValueFromPath (Some props) path = Some v"
      "props' = props" "m = (if path = [] then t else v)"
proof (cases "leafy t")
  case True
  show ?thesis
  proof (cases "getValueFromPath (Some props) path")
    case None
    then have ne: "path \<noteq> []" by auto
    from assms None have st: "setValueFromPath props path (Some t) = Inr props'" and mt: "m = t"
      by (simp_all add: walk_leafy[OF True] split: sum.splits)
    show ?thesis by (rule written[OF True None st mt ne])
  next
    case (Some v)
    from assms Some have pp: "props' = props" and mv: "m = (if path = [] then t else v)"
      by (simp_all add: walk_leafy[OF True])
    show ?thesis by (rule found[OF True Some pp mv])
  qed
next
  case False
  show ?thesis
  proof (cases t)
    case (JObj kvs)
    obtain e kvs' p' where f: "walk_fields kvs path props = (e, kvs', p')"
      by (cases "walk_fields kvs path props")
    with assms JObj have mo: "m = JObj kvs'"
      and wf: "walk_fields kvs path props = (None, kvs', props')"
      by simp_all
    show ?thesis by (rule obj[OF JObj mo wf])
  next
    case (JArr xs)
    then show ?thesis using assms by simp
  next
    case JNull
    then show ?thesis using assms by (intro null) simp_all
  qed (use False in simp_all)
qed

lemma walk_fields_cons:
  assumes "walk_fields ((k, v) # kvs) path props = (None, kvs', props')"
  obtains v' kvs'' propsA where "walk v (path @ [k]) props = (None, v', propsA)"
    "walk_fields kvs path propsA = (None, kvs'', props')" "kvs' = (k, v') # kvs''"
  using assms by (auto split: prod.splits option.splits)

lemma diverge_append_right: "diverge p q \<Longrightarrow> diverge p (q @ r)"
  by (induction p q rule: diverge.induct) (auto split: if_splits)

lemma diverge_sibling: "a \<noteq> b \<Longrightarrow> diverge (c @ a # p) (c @ b # q)"
  by (induction c) auto

lemma diverge_nonempty: "diverge p q \<Longrightarrow> p \<noteq> [] \<and> q \<noteq> []"
  by (cases p; cases q) auto

lemma walk_frame:
  "walk t path props = (e, m, props') \<Longrightarrow> diverge p path \<Longrightarrow>
     getValueFromPath (Some props') p = getValueFromPath (Some props) p"
  "walk_fields kvs path props = (e', kvs', props'') \<Longrightarrow>
     diverge p path \<or> (\<exists>k r. p = path @ k # r \<and> k \<notin> fst ` set kvs) \<Longrightarrow>
     getValueFromPath (Some props'') p = getValueFromPath (Some props) p"
proof (induction t path props and kvs path props arbitrary: e m props' and e' kvs' props''
    rule: walk_walk_fields.induct)
  case (1 xs path props)
  then show ?case by simp
next
  case (2 kvs path props)
  then show ?case by (auto split: prod.splits)
next
  case (3 path props)
  then show ?case by simp
next
  case (4 v path props)
  then show ?case
    by (auto split: option.splits sum.splits dest: get_set_diverge)
next
  case (5 v path props)
  then show ?case
    by (auto split: option.splits sum.splits dest: get_set_diverge)
next
  case (6 v path props)
  then show ?case
    by (auto split: option.splits sum.splits dest: get_set_diverge)
next
  case (7 path props)
  then show ?case by simp
next
  case (8 k v kvs path props)
  obtain e1 v' propsA where w: "walk v (path @ [k]) props = (e1, v', propsA)"
    by (cases "walk v (path @ [k]) props")
  have d: "diverge p (path @ [k])"
    using "8.prems"(2) diverge_append_right diverge_sibling[of _ k path _ "[]"] by auto
  have a: "getValueFromPath (Some propsA) p = getValueFromPath (Some props) p"
    using "8.IH"(1)[OF w d] .
  show ?case
  proof (cases e1)
    case (Some err)
    then show ?thesis using w a "8.prems"(1) by simp
  next
    case None
    obtain e2 kvs2 propsB where f: "walk_fields kvs path propsA = (e2, kvs2, propsB)"
      by (cases "walk_fields kvs path propsA")
    have "getValueFromPath (Some propsB) p = getValueFromPath (Some propsA) p"
      by (rule "8.IH"(2)[OF _ None _ f]) (use w None "8.prems"(2) in auto)
    then show ?thesis using w a f None "8.prems"(1) by simp
  qed
qed

subsection \<open>The merged leaves\<close>

lemma wf_fields: "wf_json (JObj ((k, v) # kvs)) \<Longrightarrow> wf_json v \<and> wf_json (JObj kvs) \<and> k \<notin> fst ` set kvs"
  by simp

text \<open>after a successful walk: merged leaf values\<close>

lemma walk_leaves:
  "walk t path props = (None, m, props') \<Longrightarrow> wf_json t \<Longrightarrow> lookup t q = Some d \<Longrightarrow> leafy d \<Longrightarrow>
   path @ q \<noteq> [] \<Longrightarrow>
     lookup m q = Some (case getValueFromPath (Some props) (path @ q) of None \<Rightarrow> d | Some v \<Rightarrow> v)
     \<and> getValueFromPath (Some props') (path @ q) = lookup m q"
  "walk_fields kvs path props = (None, kvs', props'') \<Longrightarrow> wf_json (JObj kvs) \<Longrightarrow>
   lookup (JObj kvs) (k # q) = Some d \<Longrightarrow> leafy d \<Longrightarrow>
     lookup (JObj kvs') (k # q) =
       Some (case getValueFromPath (Some props) (path @ k # q) of None \<Rightarrow> d | Some v \<Rightarrow> v)
     \<and> getValueFromPath (Some props'') (path @ k # q) = lookup (JObj kvs') (k # q)"
proof (induction t path props and kvs path props arbitrary: m props' q and kvs' props'' k q
    rule: walk_walk_fields.induct)
  case (1 xs path props)
  then show ?case by simp
next
  case (2 kvs path props)
  from "2.prems"(3,4) obtain k q' where q: "q = k # q'" by (cases q) auto
  from "2.prems"(1) obtain kvs' where m: "m = JObj kvs'"
    and f: "walk_fields kvs path props = (None, kvs', props')"
    by (auto split: prod.splits)
  show ?case using "2.IH"[OF f "2.prems"(2) "2.prems"(3)[unfolded q] "2.prems"(4)] m q by simp
next
  case (3 path props)
  then show ?case by (cases q) auto
next
  case (4 v path props)
  then have q: "q = []" "d = JBool v" by (cases q; simp)+
  from "4.prems"(1) show ?case
  proof (cases rule: walk_cases)
    case written
    then show ?thesis using q get_set_same[OF written(3) written(5)] by simp
  next
    case (found v)
    then show ?thesis using q "4.prems"(5) by simp
  qed simp_all
next
  case (5 v path props)
  then have q: "q = []" "d = JNum v" by (cases q; simp)+
  from "5.prems"(1) show ?case
  proof (cases rule: walk_cases)
    case written
    then show ?thesis using q get_set_same[OF written(3) written(5)] by simp
  next
    case (found v)
    then show ?thesis using q "5.prems"(5) by simp
  qed simp_all
next
  case (6 v path props)
  then have q: "q = []" "d = JStr v" by (cases q; simp)+
  from "6.prems"(1) show ?case
  proof (cases rule: walk_cases)
    case written
    then show ?thesis using q get_set_same[OF written(3) written(5)] by simp
  next
    case (found v)
    then show ?thesis using q "6.prems"(5) by simp
  qed simp_all
next
  case (7 path props)
  then show ?case by simp
next
  case (8 k0 v0 kvs path props)
  from "8.prems"(1) obtain v' kvs2 propsA where
    w: "walk v0 (path @ [k0]) props = (None, v', propsA)"
    and f: "walk_fields kvs path propsA = (None, kvs2, props'')"
    and kvs': "kvs' = (k0, v') # kvs2"
    by (rule walk_fields_cons)
  from "8.prems"(2) have wf: "wf_json v0" "wf_json (JObj kvs)" "k0 \<notin> fst ` set kvs"
    by simp_all
  show ?case
  proof (cases "k = k0")
    case True
    then have l: "lookup v0 q = Some d" using "8.prems"(3) by simp
    have a: "lookup v' q = Some (case getValueFromPath (Some props) ((path @ [k0]) @ q) of None \<Rightarrow> d | Some v \<Rightarrow> v)
       \<and> getValueFromPath (Some propsA) ((path @ [k0]) @ q) = lookup v' q"
      by (rule "8.IH"(1)[OF w wf(1) l "8.prems"(4)]) simp
    have "getValueFromPath (Some props'') (path @ k0 # q) = getValueFromPath (Some propsA) (path @ k0 # q)"
      by (rule walk_frame(2)[OF f]) (use wf(3) in auto)
    then show ?thesis using a True kvs' by simp
  next
    case False
    then have l: "lookup (JObj kvs) (k # q) = Some d" using "8.prems"(3) by simp
    have a: "lookup (JObj kvs2) (k # q) =
        Some (case getValueFromPath (Some propsA) (path @ k # q) of None \<Rightarrow> d | Some v \<Rightarrow> v)
       \<and> getValueFromPath (Some props'') (path @ k # q) = lookup (JObj kvs2) (k # q)"
      by (rule "8.IH"(2)[OF _ _ _ f wf(2) l "8.prems"(4)]) (use w in auto)
    have "getValueFromPath (Some propsA) (path @ k # q) = getValueFromPath (Some props) (path @ k # q)"
      by (rule walk_frame(1)[OF w]) (use False diverge_sibling[of k k0 path q "[]"] in simp)
    then show ?thesis using a False kvs' by simp
  qed
qed

subsection \<open>A second walk; the exceptions of a walk\<close>



lemma assign_error: "assign t k v = Inl e \<Longrightarrow> e = TypeError \<or> e = ArrayPropertyWrite"
  by (cases t; cases v) auto

lemma set_error: "setValueFromPath t p v = Inl e \<Longrightarrow> e = TypeError \<or> e = ArrayPropertyWrite"
  by (induction t p v rule: setValueFromPath.induct)
    (auto split: if_splits sum.splits option.splits dest: assign_error)

lemma walk_array_error:
  "walk t path props = (Some ArraysNotSupported, m, props') \<Longrightarrow> \<not> no_arrays t"
  "walk_fields kvs path props = (Some ArraysNotSupported, kvs', props'') \<Longrightarrow>
     \<not> list_all no_arrays (map snd kvs)"
proof (induction t path props and kvs path props arbitrary: m props' and kvs' props''
    rule: walk_walk_fields.induct)
  case (2 kvs path props)
  then show ?case by (auto split: prod.splits)
next
  case (8 k v kvs path props)
  then show ?case by (auto split: prod.splits option.splits)
qed (auto split: option.splits sum.splits dest: set_error)


subsection \<open>Key paths; \<open>init\<close> in terms of \<open>walk\<close>\<close>


lemma leafy_scalar: "leafy v \<Longrightarrow> scalar v"
  by (cases v) simp_all


lemma leaf_paths_leafy: "leafy d \<Longrightarrow> leaf_paths d = [[]]"
  by (cases d) simp_all

lemma leaf_paths_complete:
  "lookup t q = Some d \<Longrightarrow> leafy d \<Longrightarrow> q \<in> set (leaf_paths t)"
proof (induction t q rule: lookup.induct)
  case (2 kvs k p)
  then obtain c where c: "map_of kvs k = Some c" "lookup c p = Some d"
    by (auto split: option.splits)
  then have "(k, c) \<in> set kvs" by (auto dest: map_of_SomeD)
  moreover have "p \<in> set (leaf_paths c)" using "2.IH" c "2.prems"(2) by simp
  ultimately show ?case by force
qed (auto split: if_splits simp: leaf_paths_leafy)



subsection \<open>When no write into the persisted structure fails\<close>

lemma settable_empty: "settable (JObj []) p"
proof (cases p)
  case (Cons k p')
  then show ?thesis by (cases p') simp_all
qed simp

lemma is_obj_assign: "is_obj t \<Longrightarrow> \<exists>kvs. t = JObj kvs \<and> assign t k (Some v) = Inr (JObj (AList.update k v kvs))"
  by (cases t) simp_all

lemma settable_set:
  "settable t p \<Longrightarrow> \<exists>r. setValueFromPath t p (Some v) = Inr r"
proof (induction p arbitrary: t)
  case Nil
  show ?case by simp
next
  case (Cons k p)
  show ?case
  proof (cases p)
    case Nil
    then show ?thesis using Cons.prems is_obj_assign[of t k v] by auto
  next
    case (Cons k' p')
    show ?thesis
    proof (cases "falsy_opt (own_prop t k)")
      case True
      then have "is_obj t" using Cons.prems Cons by simp
      then obtain kvs where "t = JObj kvs" "assign t k (Some (JObj [])) = Inr (JObj (AList.update k (JObj []) kvs))"
        using is_obj_assign by blast
      moreover obtain r where "setValueFromPath (JObj []) p (Some v) = Inr r"
        using Cons.IH[OF settable_empty] by blast
      ultimately show ?thesis using True Cons by simp
    next
      case False
      then obtain c where c: "own_prop t k = Some c" "settable c p"
        using Cons.prems Cons by (auto split: option.splits)
      then obtain r where "setValueFromPath c p (Some v) = Inr r"
        using Cons.IH by blast
      then show ?thesis using False c Cons by simp
    qed
  qed
qed

lemma set_result_truthy:
  "setValueFromPath t p (Some v) = Inr t' \<Longrightarrow> p \<noteq> [] \<Longrightarrow> \<not> scalar t' \<and> \<not> falsy t'"
proof (cases p)
  case (Cons k p')
  assume a: "setValueFromPath t p (Some v) = Inr t'"
  show ?thesis
  proof (cases p')
    case Nil
    then show ?thesis using a Cons by (cases t) auto
  next
    case (Cons k' p'')
    from a[unfolded \<open>p = k # p'\<close> Cons] show ?thesis
    proof (cases rule: set_step)
      case (vivify kvs c')
      then show ?thesis by simp
    next
      case (descend c c')
      then show ?thesis by (cases t) auto
    qed
  qed
qed simp

lemma is_obj_put_child: "is_obj (put_child t k c) = is_obj t"
  by (cases t) simp_all

lemma settable_cong:
  "is_obj t' = is_obj t \<Longrightarrow> own_prop t' a = own_prop t a \<Longrightarrow> settable t' (a # p) = settable t (a # p)"
  by (cases p) simp_all

lemma settable_after_set:
  "setValueFromPath t q1 (Some v1) = Inr t' \<Longrightarrow> diverge q2 q1 \<Longrightarrow> settable t q2 \<Longrightarrow> settable t' q2"
proof (induction q1 arbitrary: q2 t t')
  case Nil
  then show ?case by simp
next
  case (Cons b q1)
  from Cons.prems(2) obtain a p2 where q2: "q2 = a # p2" by (cases q2) auto
  show ?case
  proof (cases q1)
    case Nil
    with Cons.prems q2 have ab: "a \<noteq> b" by (auto split: if_splits)
    from Cons.prems(1) Nil obtain kvs where t: "t = JObj kvs" "t' = JObj (AList.update b v1 kvs)"
      by (cases t) auto
    have "settable t' (a # p2) = settable t (a # p2)"
      by (rule settable_cong) (use t ab in \<open>auto simp: update_conv'\<close>)
    then show ?thesis using Cons.prems(3) q2 by simp
  next
    case (Cons k' q1')
    from Cons.prems(1)[unfolded Cons] show ?thesis
    proof (cases rule: set_step)
      case (vivify kvs c')
      show ?thesis
      proof (cases "a = b")
        case True
        then have d: "diverge p2 q1" using Cons.prems(2) q2 by simp
        then obtain a2 p3 where p2: "p2 = a2 # p3" by (cases p2) auto
        have "settable c' p2"
          by (rule Cons.IH[OF _ d settable_empty]) (use vivify Cons in simp)
        moreover have "\<not> falsy c'"
          using set_result_truthy[of "JObj []" q1 v1 c'] vivify Cons by simp
        ultimately show ?thesis using vivify True q2 p2 by (simp add: update_conv')
      next
        case False
        have "settable t' (a # p2) = settable t (a # p2)"
          by (rule settable_cong) (use vivify False in \<open>auto simp: update_conv'\<close>)
        then show ?thesis using Cons.prems(3) q2 by simp
      qed
    next
      case (descend c c')
      show ?thesis
      proof (cases "a = b")
        case True
        then have d: "diverge p2 q1" using Cons.prems(2) q2 by simp
        then obtain a2 p3 where p2: "p2 = a2 # p3" by (cases p2) auto
        have "settable c p2" using Cons.prems(3) q2 True descend(1,2) p2 by simp
        then have "settable c' p2"
          using Cons.IH[OF _ d, of c c'] descend(3) Cons by simp
        moreover have "\<not> falsy c'"
          using set_result_truthy[of c q1 v1 c'] descend(3) Cons by simp
        moreover have "own_prop t' b = Some c'"
          using own_prop_put_same[OF descend(1,5,6)] descend(4) by simp
        ultimately show ?thesis using True q2 p2 by simp
      next
        case False
        have "settable t' (a # p2) = settable t (a # p2)"
          by (rule settable_cong)
            (use descend False own_prop_put_other[OF descend(1,6), of a] in \<open>auto simp: is_obj_put_child\<close>)
        then show ?thesis using Cons.prems(3) q2 by simp
      qed
    qed
  qed
qed

lemma walk_settable_frame:
  "walk t path props = (e, m, props') \<Longrightarrow> diverge p path \<Longrightarrow> settable props p \<Longrightarrow>
     settable props' p"
  "walk_fields kvs path props = (e', kvs', props'') \<Longrightarrow>
     diverge p path \<or> (\<exists>k r. p = path @ k # r \<and> k \<notin> fst ` set kvs) \<Longrightarrow> settable props p \<Longrightarrow>
     settable props'' p"
proof (induction t path props and kvs path props arbitrary: e m props' and e' kvs' props''
    rule: walk_walk_fields.induct)
  case (1 xs path props)
  then show ?case by simp
next
  case (2 kvs path props)
  then show ?case by (auto split: prod.splits)
next
  case (3 path props)
  then show ?case by simp
next
  case (4 v path props)
  then show ?case
    by (auto split: option.splits sum.splits dest: settable_after_set)
next
  case (5 v path props)
  then show ?case
    by (auto split: option.splits sum.splits dest: settable_after_set)
next
  case (6 v path props)
  then show ?case
    by (auto split: option.splits sum.splits dest: settable_after_set)
next
  case (7 path props)
  then show ?case by simp
next
  case (8 k v kvs path props)
  obtain e1 v' propsA where w: "walk v (path @ [k]) props = (e1, v', propsA)"
    by (cases "walk v (path @ [k]) props")
  have d: "diverge p (path @ [k])"
    using "8.prems"(2) diverge_append_right diverge_sibling[of _ k path _ "[]"] by auto
  have a: "settable propsA p"
    using "8.IH"(1)[OF w d "8.prems"(3)] .
  show ?case
  proof (cases e1)
    case (Some err)
    then show ?thesis using w a "8.prems"(1) by simp
  next
    case None
    obtain e2 kvs2 propsB where f: "walk_fields kvs path propsA = (e2, kvs2, propsB)"
      by (cases "walk_fields kvs path propsA")
    have "settable propsB p"
      by (rule "8.IH"(2)[OF _ None _ f _ a]) (use w None "8.prems"(2) in auto)
    then show ?thesis using w f None "8.prems"(1) by simp
  qed
qed

lemma walk_only_array_error:
  "walk t path props = (Some e, m, props') \<Longrightarrow> wf_json t \<Longrightarrow>
   (\<And>q d. lookup t q = Some d \<Longrightarrow> leafy d \<Longrightarrow> settable props (path @ q)) \<Longrightarrow>
     e = ArraysNotSupported"
  "walk_fields kvs path props = (Some e, kvs', props'') \<Longrightarrow> wf_json (JObj kvs) \<Longrightarrow>
   (\<And>k q d. lookup (JObj kvs) (k # q) = Some d \<Longrightarrow> leafy d \<Longrightarrow> settable props (path @ k # q)) \<Longrightarrow>
     e = ArraysNotSupported"
proof (induction t path props and kvs path props arbitrary: m props' and kvs' props''
    rule: walk_walk_fields.induct)
  case (1 xs path props)
  then show ?case by simp
next
  case (2 kvs path props)
  obtain e1 k1 p1 where f: "walk_fields kvs path props = (e1, k1, p1)"
    by (cases "walk_fields kvs path props")
  then have "e1 = Some e" using "2.prems"(1) by simp
  then show ?case using "2.IH"[OF f[unfolded \<open>e1 = Some e\<close>] "2.prems"(2)] "2.prems"(3)[of "_ # _"]
    by simp
next
  case (3 path props)
  then show ?case by simp
next
  case (4 v path props)
  then show ?case using settable_set[of props path "JBool v"] "4.prems"(3)[of "[]" "JBool v"]
    by (auto split: option.splits sum.splits)
next
  case (5 v path props)
  then show ?case using settable_set[of props path "JNum v"] "5.prems"(3)[of "[]" "JNum v"]
    by (auto split: option.splits sum.splits)
next
  case (6 v path props)
  then show ?case using settable_set[of props path "JStr v"] "6.prems"(3)[of "[]" "JStr v"]
    by (auto split: option.splits sum.splits)
next
  case (7 path props)
  then show ?case by simp
next
  case (8 k v kvs path props)
  obtain e1 v' propsA where w: "walk v (path @ [k]) props = (e1, v', propsA)"
    by (cases "walk v (path @ [k]) props")
  from "8.prems"(2) have wf: "wf_json v" "wf_json (JObj kvs)" "k \<notin> fst ` set kvs"
    by simp_all
  show ?case
  proof (cases e1)
    case (Some err)
    then have "err = e" using w "8.prems"(1) by simp
    show ?thesis
    proof (rule "8.IH"(1)[OF w[unfolded Some \<open>err = e\<close>] wf(1)])
      fix q d assume "lookup v q = Some d" "leafy d"
      then show "settable props ((path @ [k]) @ q)" using "8.prems"(3)[of k q d] by simp
    qed
  next
    case None
    obtain e2 kvs2 propsB where f: "walk_fields kvs path propsA = (e2, kvs2, propsB)"
      by (cases "walk_fields kvs path propsA")
    then have e2: "e2 = Some e" using w None "8.prems"(1) by simp
    show ?thesis
    proof (rule "8.IH"(2)[OF _ None _ f[unfolded e2] wf(2)])
      fix k2 q d assume l: "lookup (JObj kvs) (k2 # q) = Some d" and "leafy d"
      from l have "k2 \<in> fst ` set kvs"
        by (auto split: option.splits dest!: map_of_SomeD intro: rev_image_eqI)
      then have ne: "k2 \<noteq> k" using wf(3) by auto
      have s: "settable props (path @ k2 # q)"
        using "8.prems"(3)[of k2 q d] l ne \<open>leafy d\<close> by simp
      show "settable propsA (path @ k2 # q)"
        by (rule walk_settable_frame(1)[OF w _ s])
          (use ne diverge_sibling[of k2 k path q "[]"] in simp)
    qed (use w None in auto)
  qed
qed

lemma leaves_settableD:
  "leaves_settable D P \<Longrightarrow> lookup D q = Some d \<Longrightarrow> leafy d \<Longrightarrow> settable P q"
  using leaf_paths_complete[of D q d] by (auto simp: leaves_settable_def list_all_iff)


subsection \<open>Values that are written and read back as themselves\<close>



lemma safe_entries: "map_of (entries xs) k = Some c \<Longrightarrow> c \<in> set xs"
  by (auto simp: entries_def dest!: map_of_SomeD set_zip_rightD)





subsection \<open>A walk of the merged structure\<close>




section \<open>Properties of the reconciliation\<close>

lemma loadConfig_ok:
  assumes "loadConfig fuel D P [] = Some (e, M, P')" "wf_json D" "depth D \<le> fuel"
  shows "walk D [] P = (e, M, P')"
  using loadConfig_walk[OF assms(2) _ assms(3), of D "[]" P] assms(1)
  by (simp add: put_back_def split: prod.splits)

text \<open>
  Enough fuel: on a default structure with each key once, a recursion bound of at least
  its depth makes \<open>loadConfig\<close> return an outcome.
\<close>

lemma loadConfig_returns:
  "wf_json D \<Longrightarrow> depth D \<le> fuel \<Longrightarrow> \<exists>r. loadConfig fuel D P [] = Some r"
  using loadConfig_walk[of D D "[]" fuel P] by (intro exI) simp

text \<open>
  For a leaf of the default structure that is a string, a number or a boolean, a value
  found in the persisted structure at the leaf's path becomes the merged value, whatever
  it is, and stays in the persisted structure.
\<close>

lemma persisted_wins:
  assumes "loadConfig fuel D P [] = Some (None, M, P')" "wf_json D" "depth D \<le> fuel"
    and "lookup D q = Some d" "leafy d" "q \<noteq> []"
    and "getValueFromPath (Some P) q = Some v"
  shows "lookup M q = Some v \<and> getValueFromPath (Some P') q = Some v"
  using walk_leaves(1)[OF loadConfig_ok[OF assms(1-3)] assms(2,4,5)] assms(6,7)
  by simp

text \<open>
  For such a leaf with nothing found in the persisted structure at its path, the merged
  value is the default and the persisted structure holds the default at that path
  afterwards.
\<close>

lemma default_written:
  assumes "loadConfig fuel D P [] = Some (None, M, P')" "wf_json D" "depth D \<le> fuel"
    and "lookup D q = Some d" "leafy d"
    and "getValueFromPath (Some P) q = None"
  shows "lookup M q = Some d \<and> getValueFromPath (Some P') q = Some d"
proof -
  have "q \<noteq> []" using assms(6) by auto
  then show ?thesis
    using walk_leaves(1)[OF loadConfig_ok[OF assms(1-3)] assms(2,4,5)] assms(6) by simp
qed

text \<open>
  C1, at a default of \<^verbatim>\<open>null\<close>. With the default \<^verbatim>\<open>{ a: null }\<close> and the persisted file
  \<^verbatim>\<open>{ "a": 5 }\<close>, the path \<^verbatim>\<open>a\<close> is a leaf path of both, and the merged configuration keeps
  \<^verbatim>\<open>null\<close> at it: \<^verbatim>\<open>typeof null\<close> is \<^verbatim>\<open>'object'\<close>, so \<open>loadConfig\<close> loops over the keys of
  \<^verbatim>\<open>null\<close>, of which there are none, and never reads the persisted value.
\<close>

theorem null_default_never_overridden:
  "init 2 (Config (JObj [(''a'', JNull)]))
       \<lparr>content = Some (Doc (JObj [(''a'', JNum (Finite 5))])), written = []\<rparr>
   = Some (None,
       \<lparr>initialized = True, config = JObj [(''a'', JNull)]\<rparr>,
       \<lparr>content = Some (Doc (JObj [(''a'', JNum (Finite 5))])),
          written = [Doc (JObj [(''a'', JNum (Finite 5))])]\<rparr>)"
  by code_simp

text \<open>
  C2, at a default of \<^verbatim>\<open>null\<close>. With the default \<^verbatim>\<open>{ a: null }\<close> and no file, the path \<^verbatim>\<open>a\<close>
  is a leaf path of the default structure that the persisted structure lacks; after
  \<open>init\<close> the file holds \<^verbatim>\<open>{}\<close>: the default was not written.
\<close>

theorem null_default_never_persisted:
  "init 2 (Config (JObj [(''a'', JNull)])) \<lparr>content = None, written = []\<rparr>
   = Some (None,
       \<lparr>initialized = True, config = JObj [(''a'', JNull)]\<rparr>,
       \<lparr>content = Some (Doc (JObj [])), written = [Blank, Doc (JObj [])]\<rparr>)"
  by code_simp





text \<open>
  No write fails and no array is met: on a default structure without arrays, with a
  persisted structure in which every leaf path of the default structure can be written,
  reconciliation raises nothing.
\<close>

lemma reconciles:
  assumes "wf_json D" "depth D \<le> fuel" "no_arrays D" "leaves_settable D P"
  shows "\<exists>M P'. loadConfig fuel D P [] = Some (None, M, P')"
proof -
  obtain e m props' where w: "walk D [] P = (e, m, props')"
    by (cases "walk D [] P")
  have "e = None"
  proof (cases e)
    case (Some err)
    have "err = ArraysNotSupported"
      by (rule walk_only_array_error(1)[OF w[unfolded Some] assms(1)])
        (use leaves_settableD[OF assms(4)] in simp)
    then show ?thesis using walk_array_error(1)[of D "[]" P m props'] w Some assms(3) by simp
  qed simp
  then show ?thesis
    using loadConfig_walk[OF assms(1) _ assms(2), of D "[]" P] w by (simp add: put_back_def)
qed







text \<open>
  On a file whose text is an object, and on a missing or empty file, the \<open>init\<close> of the
  second variant does what the \<open>init\<close> of the first does.
\<close>

lemma init_sync_object:
  "parse_or_empty (text_read d) = Inr (JObj kvs) \<Longrightarrow> init_sync fuel self d = init fuel self d"
  by (auto simp: init_sync_def init_def text_read_def readFileSync_def existsSync_def
      writeFileSync_def Let_def split: option.splits)

text \<open>
  C9, on a file that needs no change. With the default \<^verbatim>\<open>{ a: 1 }\<close> and the file
  \<^verbatim>\<open>{ "a": 1 }\<close>, reconciliation adds nothing to the persisted structure, and \<open>init\<close>
  writes the file all the same, in both variants of the class: the log of writes holds
  the document.
\<close>

theorem unchanged_file_rewritten:
  "loadConfig 2 (JObj [(''a'', JNum (Finite 1))]) (JObj [(''a'', JNum (Finite 1))]) []
     = Some (None, JObj [(''a'', JNum (Finite 1))], JObj [(''a'', JNum (Finite 1))])
   \<and> init 2 (Config (JObj [(''a'', JNum (Finite 1))]))
        \<lparr>content = Some (Doc (JObj [(''a'', JNum (Finite 1))])), written = []\<rparr>
      = Some (None,
          \<lparr>initialized = True, config = JObj [(''a'', JNum (Finite 1))]\<rparr>,
          \<lparr>content = Some (Doc (JObj [(''a'', JNum (Finite 1))])),
             written = [Doc (JObj [(''a'', JNum (Finite 1))])]\<rparr>)
   \<and> init_sync 2 (Config_sync (JObj [(''a'', JNum (Finite 1))]))
        \<lparr>content = Some (Doc (JObj [(''a'', JNum (Finite 1))])), written = []\<rparr>
      = Some (None,
          \<lparr>initialized = True, config = JObj [(''a'', JNum (Finite 1))]\<rparr>,
          \<lparr>content = Some (Doc (JObj [(''a'', JNum (Finite 1))])),
             written = [Doc (JObj [(''a'', JNum (Finite 1))])]\<rparr>)"
  by (intro conjI; code_simp)

text \<open>Every successful \<open>init\<close> of a new instance writes the document, as its last write.\<close>

lemma init_always_writes:
  assumes "init fuel self d = Some (None, self', d')" "\<not> initialized self"
  shows "\<exists>props'. written d' = written (ensured d) @ [stringify props']
           \<and> content d' = Some (stringify props')"
  using assms
  by (auto simp: init_def ensured_def[symmetric] writeFileSync_def Let_def
      split: sum.splits option.splits prod.splits)

section \<open>The heap and the value model\<close>

inductive_cases owns_objE: "owns h v (JObj kvs) F"
inductive_cases owns_nilE: "owns_fields h hkvs [] F"
inductive_cases owns_consE: "owns_fields h hkvs ((k, t) # kvs) F"
inductive_cases owns_arrE: "owns h v (JArr xs) F"

lemma owns_scalar: "owns h v t F \<Longrightarrow> scalar t \<Longrightarrow> v = embed t \<and> F = {}"
  by (erule owns.cases) simp_all

lemma owns_embed: "scalar t \<Longrightarrow> owns h (embed t) t {}"
  by (cases t) (auto intro: owns_owns_fields.intros)

lemma owns_falsy: "owns h v t F \<Longrightarrow> h_falsy v = falsy t"
  by (erule owns.cases) simp_all

lemma flat_scalar: "scalar t \<Longrightarrow> flat t"
  by (cases t) simp_all

lemma owns_flat: "owns h v t F \<Longrightarrow> flat t \<Longrightarrow> F = {}"
  by (erule owns.cases) simp_all

lemma flat_own_prop: "flat t \<Longrightarrow> own_prop t k = Some c \<Longrightarrow> flat c"
  by (cases t) (auto simp: list_all_iff split: if_splits dest!: safe_entries intro: flat_scalar)

lemma flat_assign: "flat t \<Longrightarrow> \<exists>e. assign t k v = Inl e"
  by (cases t) simp_all

lemma set_flat_fails:
  "p \<noteq> [] \<Longrightarrow> flat t \<Longrightarrow> \<exists>e. setValueFromPath t p v = Inl e"
proof (induction p arbitrary: t)
  case Nil then show ?case by simp
next
  case (Cons k p)
  show ?case
  proof (cases p)
    case Nil then show ?thesis using Cons.prems flat_assign[of t k v] by auto
  next
    case (Cons k' p')
    have "\<exists>e. setValueFromPath c p v = Inl e" if "own_prop t k = Some c" for c
      using that Cons.IH Cons.prems local.Cons flat_own_prop by blast
    moreover obtain e where "assign t k (Some (JObj [])) = Inl e"
      using flat_assign[OF Cons.prems(2)] by blast
    ultimately show ?thesis using local.Cons
      by (auto split: option.splits sum.splits)
  qed
qed

lemma owns_empty_flat:
  "owns h v t F \<Longrightarrow> F = {} \<Longrightarrow> flat t"
  "owns_fields h hkvs kvs F' \<Longrightarrow> True"
proof (induction rule: owns_owns_fields.inducts)
  case (owns_arr h a hxs xs)
  then show ?case by (simp add: list_all_length list_all2_conv_all_nth)
qed simp_all

lemma owns_settable:
  assumes "owns h v t F" "setValueFromPath t (k # p) x = Inr t'"
  obtains kvs where "t = JObj kvs"
proof (cases t)
  case (JObj kvs)
  then show ?thesis by (rule that)
next
  case (JArr xs)
  then have "F = {}" using assms(1) by (auto elim: owns_arrE)
  then have "flat t" using owns_empty_flat(1)[OF assms(1)] by simp
  then show ?thesis using set_flat_fails[of "k # p" t x] assms(2) by auto
qed (use assms(2) set_flat_fails[of "k # p" t x] in auto)

lemma arrays_kept_refl: "arrays_kept h h"
  by (simp add: arrays_kept_def)

lemma arrays_kept_trans: "arrays_kept h h1 \<Longrightarrow> arrays_kept h1 h2 \<Longrightarrow> arrays_kept h h2"
  by (simp add: arrays_kept_def)

lemma owns_frame:
  "owns h v t F \<Longrightarrow> (\<And>a. a \<in> F \<Longrightarrow> heap_at h' a = heap_at h a) \<Longrightarrow> arrays_kept h h' \<Longrightarrow>
     owns h' v t F"
  "owns_fields h hkvs kvs F \<Longrightarrow> (\<And>a. a \<in> F \<Longrightarrow> heap_at h' a = heap_at h a) \<Longrightarrow>
     arrays_kept h h' \<Longrightarrow> owns_fields h' hkvs kvs F"
proof (induction rule: owns_owns_fields.inducts)
  case (owns_arr h a hxs xs)
  have "heap_at h' a = Some (HArr hxs)" using owns_arr.hyps(1) owns_arr.prems(2)
    by (simp add: arrays_kept_def)
  then show ?case using owns_arr.hyps(2) by (rule owns_owns_fields.owns_arr)
next
  case (owns_obj h a hkvs kvs F)
  then show ?case by (auto intro: owns_owns_fields.intros)
next
  case (owns_cons h v t F1 hkvs kvs F2 k)
  then show ?case by (auto intro: owns_owns_fields.intros)
qed (auto intro: owns_owns_fields.intros)

lemma owns_bound:
  "owns h v t F \<Longrightarrow> F \<subseteq> {..<length h}"
  "owns_fields h hkvs kvs F \<Longrightarrow> F \<subseteq> {..<length h}"
proof (induction rule: owns_owns_fields.inducts)
  case (owns_obj h a hkvs kvs F)
  then show ?case by (auto simp: heap_at_def split: if_splits)
next
  case (owns_arr h a hxs xs)
  show ?case by simp
next
  case (owns_cons h v t F1 hkvs kvs F2 k)
  then show ?case by auto
qed simp_all

lemma fields_keys: "owns_fields h hkvs kvs F \<Longrightarrow> map fst hkvs = map fst kvs"
  by (induction hkvs kvs F rule: owns_owns_fields.inducts(2)[where ?P1.0="\<lambda>_ _ _ _. True"]) simp_all

lemma fields_lookup:
  "owns_fields h hkvs kvs F \<Longrightarrow>
   (case map_of kvs k of
      None \<Rightarrow> map_of hkvs k = None
    | Some t \<Rightarrow> \<exists>v F'. map_of hkvs k = Some v \<and> owns h v t F' \<and> F' \<subseteq> F)"
  by (induction hkvs kvs F rule: owns_owns_fields.inducts(2)[where ?P1.0="\<lambda>_ _ _ _. True"])
     (auto split: option.splits)


lemma entries_map: "entries (map f xs) = map (\<lambda>(k, x). (k, f x)) (entries xs)"
  by (simp add: entries_def zip_map2)

lemma map_of_entries_map:
  "map_of (entries (map f xs)) k = map_option f (map_of (entries xs) k)"
  by (simp add: entries_map map_of_map)

lemma zip_lookup:
  "list_all2 R hxs xs \<Longrightarrow> length ks = length xs \<Longrightarrow>
   rel_option R (map_of (zip ks hxs) k) (map_of (zip ks xs) k)"
proof (induction ks arbitrary: hxs xs)
  case Nil
  then show ?case by simp
next
  case (Cons k0 ks)
  then obtain x xs' where xs: "xs = x # xs'" by (cases xs) auto
  with Cons.prems obtain v hxs' where hxs: "hxs = v # hxs'" "R v x" "list_all2 R hxs' xs'"
    by (cases hxs) auto
  show ?case using Cons.IH[OF hxs(3)] Cons.prems(2) xs hxs by simp
qed

lemma rel_option_case:
  "rel_option R a b \<Longrightarrow> (case b of None \<Rightarrow> a = None | Some x \<Rightarrow> \<exists>v. a = Some v \<and> R v x)"
  by (cases a; cases b) simp_all

lemma entries_lookup:
  assumes "list_all2 R hxs xs"
  shows "case map_of (entries xs) k of
      None \<Rightarrow> map_of (entries hxs) k = None
    | Some x \<Rightarrow> \<exists>v. map_of (entries hxs) k = Some v \<and> R v x"
proof -
  have l: "length hxs = length xs" using assms by (rule list_all2_lengthD)
  have n: "length (map index_key [0..<length xs]) = length xs" by simp
  have r: "rel_option R (map_of (zip (map index_key [0..<length xs]) hxs) k)
      (map_of (zip (map index_key [0..<length xs]) xs) k)"
    using assms n by (rule zip_lookup)
  have e: "entries hxs = zip (map index_key [0..<length xs]) hxs" unfolding entries_def l ..
  show ?thesis unfolding e unfolding entries_def by (rule rel_option_case[OF r])
qed

lemma h_get_None: "h_getValueFromPath h None p = None"
  by (cases p) simp_all

lemma owns_own_prop:
  assumes "owns h v t F"
  shows "case own_prop t k of
      None \<Rightarrow> h_own_prop h v k = None
    | Some t' \<Rightarrow> \<exists>v' F'. h_own_prop h v k = Some v' \<and> owns h v' t' F' \<and> F' \<subseteq> F"
  using assms
proof (cases rule: owns.cases)
  case (owns_str s)
  show ?thesis
  proof (cases "map_of (entries s) k")
    case None
    then show ?thesis using owns_str
      by (auto simp: map_of_entries_map intro: owns_owns_fields.intros)
  next
    case (Some c)
    then show ?thesis using owns_str
      by (auto simp: map_of_entries_map intro: owns_owns_fields.intros)
  qed
next
  case (owns_obj a hkvs kvs F')
  then have "owns_fields h hkvs kvs F'" by simp
  from fields_lookup[OF this, of k] show ?thesis using owns_obj
    by (auto split: option.splits)
next
  case (owns_arr a hxs xs)
  have l: "length hxs = length xs" using owns_arr(5) by (rule list_all2_lengthD)
  show ?thesis
  proof (cases "k = ''length''")
    case True
    then show ?thesis using owns_arr l by (auto intro: owns_owns_fields.owns_num)
  next
    case False
    then show ?thesis using owns_arr entries_lookup[OF owns_arr(5), of k]
      by (auto split: option.splits intro: owns_embed)
  qed
qed simp_all

lemma owns_get:
  "owns h v t F \<Longrightarrow>
   (case getValueFromPath (Some t) p of
      None \<Rightarrow> h_getValueFromPath h (Some v) p = None
    | Some t' \<Rightarrow> \<exists>v' F'. h_getValueFromPath h (Some v) p = Some v' \<and> owns h v' t' F' \<and> F' \<subseteq> F)"
proof (induction p arbitrary: v t F)
  case Nil
  then show ?case by auto
next
  case (Cons k p)
  show ?case
  proof (cases "falsy t")
    case True
    then show ?thesis using owns_falsy[OF Cons.prems] by simp
  next
    case False
    then have nf: "\<not> h_falsy v" using owns_falsy[OF Cons.prems] by simp
    show ?thesis
    proof (cases "own_prop t k")
      case None
      then show ?thesis using owns_own_prop[OF Cons.prems, of k] False nf
        by (simp add: get_None h_get_None)
    next
      case (Some c)
      then obtain vc Fc where vc: "h_own_prop h v k = Some vc" "owns h vc c Fc" "Fc \<subseteq> F"
        using owns_own_prop[OF Cons.prems, of k] by auto
      show ?thesis using Cons.IH[OF vc(2), of ] vc(1,3) Some False nf
        by (auto split: option.splits)
    qed
  qed
qed

lemma owns_objD:
  assumes "owns h v (JObj kvs) F"
  obtains a hkvs F0 where "v = HRef a" "heap_at h a = Some (HObj hkvs)"
    "owns_fields h hkvs kvs F0" "a \<notin> F0" "F = insert a F0"
  using assms by (auto elim: owns_objE)

lemma fields_put:
  "owns_fields h hkvs kvs F \<Longrightarrow> (case map_of kvs k of None \<Rightarrow> True | Some c \<Rightarrow> scalar c) \<Longrightarrow>
   (\<And>a. a \<in> F \<Longrightarrow> heap_at h' a = heap_at h a) \<Longrightarrow> owns h' v' c' Fc' \<Longrightarrow> Fc' \<inter> F = {} \<Longrightarrow>
   arrays_kept h h' \<Longrightarrow>
   owns_fields h' (AList.update k v' hkvs) (AList.update k c' kvs) (Fc' \<union> F)"
proof (induction hkvs kvs F rule: owns_owns_fields.inducts(2)[where ?P1.0="\<lambda>_ _ _ _. True"])
  case (owns_nil h)
  have "owns_fields h' [(k, v')] [(k, c')] (Fc' \<union> {})"
    by (intro owns_owns_fields.owns_cons owns_nil.prems owns_owns_fields.owns_nil)
  then show ?case by simp
next
  case (owns_cons h v t F1 hkvs kvs F2 k0)
  from owns_cons.hyps have o: "owns h v t F1" and f: "owns_fields h hkvs kvs F2"
    and dj: "F1 \<inter> F2 = {}" by auto
  have f2: "owns_fields h' hkvs kvs F2"
    by (rule owns_frame(2)[OF f]) (use owns_cons.prems(2,5) in auto)
  show ?case
  proof (cases "k0 = k")
    case True
    then have "scalar t" using owns_cons.prems(1) by simp
    then have "F1 = {}" using owns_scalar[OF o] by simp
    moreover have "owns_fields h' ((k, v') # hkvs) ((k, c') # kvs) (Fc' \<union> F2)"
      by (intro owns_owns_fields.owns_cons owns_cons.prems(3) f2) (use owns_cons.prems(4) in auto)
    ultimately show ?thesis using True by simp
  next
    case False
    have v: "owns h' v t F1"
      by (rule owns_frame(1)[OF o]) (use owns_cons.prems(2,5) in auto)
    have ih: "owns_fields h' (AList.update k v' hkvs) (AList.update k c' kvs) (Fc' \<union> F2)"
      by (rule owns_cons.IH) (use owns_cons.prems False in auto)
    have "owns_fields h' ((k0, v) # AList.update k v' hkvs) ((k0, t) # AList.update k c' kvs)
        (F1 \<union> (Fc' \<union> F2))"
      by (intro owns_owns_fields.owns_cons v ih) (use dj owns_cons.prems(4) in auto)
    moreover have "F1 \<union> (Fc' \<union> F2) = Fc' \<union> (F1 \<union> F2)" by auto
    ultimately show ?thesis using False by simp
  qed
qed simp_all

lemma fields_replace:
  "owns_fields h hkvs kvs F \<Longrightarrow> map_of kvs k = Some c \<Longrightarrow>
   \<exists>v Fc R. map_of hkvs k = Some v \<and> owns h v c Fc \<and> F = Fc \<union> R \<and> Fc \<inter> R = {} \<and>
     (\<forall>h' c' Fc'. (\<forall>a\<in>R. heap_at h' a = heap_at h a) \<longrightarrow> owns h' v c' Fc' \<longrightarrow> Fc' \<inter> R = {} \<longrightarrow>
        arrays_kept h h' \<longrightarrow> owns_fields h' hkvs (AList.update k c' kvs) (Fc' \<union> R))"
proof (induction hkvs kvs F rule: owns_owns_fields.inducts(2)[where ?P1.0="\<lambda>_ _ _ _. True"])
  case (owns_cons h v t F1 hkvs kvs F2 k0)
  from owns_cons.hyps have o: "owns h v t F1" and f: "owns_fields h hkvs kvs F2"
    and dj: "F1 \<inter> F2 = {}" by auto
  show ?case
  proof (cases "k0 = k")
    case True
    then have c: "c = t" using owns_cons.prems by simp
    have "owns_fields h' ((k0, v) # hkvs) (AList.update k c' ((k0, t) # kvs)) (Fc' \<union> F2)"
      if "\<forall>a\<in>F2. heap_at h' a = heap_at h a" "owns h' v c' Fc'" "Fc' \<inter> F2 = {}"
        "arrays_kept h h'" for h' c' Fc'
    proof -
      have "owns_fields h' hkvs kvs F2"
        by (rule owns_frame(2)[OF f]) (use that(1,4) in auto)
      then show ?thesis using True that(2,3)
        by (auto intro: owns_owns_fields.owns_cons)
    qed
    then show ?thesis using True c o dj
      by (intro exI[of _ v] exI[of _ F1] exI[of _ F2]) auto
  next
    case False
    then have "map_of kvs k = Some c" using owns_cons.prems by simp
    from owns_cons.IH[OF this] obtain vc Fc R where
      vc: "map_of hkvs k = Some vc" "owns h vc c Fc" "F2 = Fc \<union> R" "Fc \<inter> R = {}"
      and rep: "\<And>h' c' Fc'. (\<forall>a\<in>R. heap_at h' a = heap_at h a) \<Longrightarrow> owns h' vc c' Fc' \<Longrightarrow>
          Fc' \<inter> R = {} \<Longrightarrow> arrays_kept h h' \<Longrightarrow>
          owns_fields h' hkvs (AList.update k c' kvs) (Fc' \<union> R)"
      by blast
    have "owns_fields h' ((k0, v) # hkvs) (AList.update k c' ((k0, t) # kvs)) (Fc' \<union> (F1 \<union> R))"
      if a: "\<forall>a\<in>F1 \<union> R. heap_at h' a = heap_at h a" and b: "owns h' vc c' Fc'"
        and d: "Fc' \<inter> (F1 \<union> R) = {}" and ak: "arrays_kept h h'" for h' c' Fc'
    proof -
      have v: "owns h' v t F1"
        by (rule owns_frame(1)[OF o]) (use a ak in auto)
      have r: "owns_fields h' hkvs (AList.update k c' kvs) (Fc' \<union> R)"
        by (rule rep) (use a b d ak in auto)
      have "owns_fields h' ((k0, v) # hkvs) ((k0, t) # AList.update k c' kvs) (F1 \<union> (Fc' \<union> R))"
        by (intro owns_owns_fields.owns_cons v r) (use d dj vc(3) in auto)
      moreover have "F1 \<union> (Fc' \<union> R) = Fc' \<union> (F1 \<union> R)" by auto
      ultimately show ?thesis using False by simp
    qed
    moreover have "F1 \<union> F2 = Fc \<union> (F1 \<union> R)" "Fc \<inter> (F1 \<union> R) = {}"
      using vc(3,4) dj by auto
    ultimately show ?thesis using vc(1,2) False
      by (intro exI[of _ vc] exI[of _ Fc] exI[of _ "F1 \<union> R"]) auto
  qed
qed simp_all

lemma refs_kept_refl: "refs_kept h h"
  by (auto simp: refs_kept_def)

lemma refs_kept_trans: "refs_kept h h1 \<Longrightarrow> refs_kept h1 h2 \<Longrightarrow> refs_kept h h2"
  unfolding refs_kept_def by (metis (no_types, lifting))

lemma same_outside_refl: "same_outside F h h"
  by (simp add: same_outside_def)

lemma heap_at_append: "a < length h \<Longrightarrow> heap_at (h @ xs) a = heap_at h a"
  by (simp add: heap_at_def nth_append)

lemma heap_at_update: "heap_at (h[a := x]) b = (if b = a \<and> a < length h then Some x else heap_at h b)"
  by (auto simp: heap_at_def)

lemma heap_at_Some: "heap_at h a = Some x \<Longrightarrow> a < length h"
  by (auto simp: heap_at_def split: if_splits)

lemma fields_ref_not_scalar:
  assumes "owns_fields h hkvs kvs F" "map_of hkvs k = Some (HRef b)"
  shows "\<exists>c. map_of kvs k = Some c \<and> \<not> scalar c"
proof (cases "map_of kvs k")
  case None
  then show ?thesis using fields_lookup[OF assms(1), of k] assms(2) by simp
next
  case (Some c)
  then obtain v F' where "map_of hkvs k = Some v" "owns h v c F'"
    using fields_lookup[OF assms(1), of k] by auto
  then have "owns h (HRef b) c F'" using assms(2) by simp
  then have "\<not> scalar c" using owns_scalar by (cases c) fastforce+
  then show ?thesis using Some by simp
qed

text \<open>one assignment of a value to a field whose old value is absent or scalar\<close>

lemma assign_sim:
  assumes o: "owns h0 (HRef a) (JObj kvs) F" 
    and old: "case map_of kvs k of None \<Rightarrow> True | Some c \<Rightarrow> scalar c"
    and h: "heap_at h a = heap_at h0 a" "\<And>x. x \<in> F \<Longrightarrow> heap_at h x = heap_at h0 x"
    and hkvs: "heap_at h0 a = Some (HObj hkvs)"
    and new: "owns h' v' c' Fc'" "Fc' \<inter> F = {}"
    and h': "heap_at h' a = Some (HObj (AList.update k v' hkvs))"
      "\<And>x. x \<in> F \<Longrightarrow> x \<noteq> a \<Longrightarrow> heap_at h' x = heap_at h0 x"
    and ak: "arrays_kept h0 h'"
  shows "owns h' (HRef a) (JObj (AList.update k c' kvs)) (insert a (Fc' \<union> (F - {a})))"
proof -
  from o obtain hkvs0 F0 where a: "heap_at h0 a = Some (HObj hkvs0)"
    "owns_fields h0 hkvs0 kvs F0" "a \<notin> F0" "F = insert a F0"
    by (auto elim: owns_objD)
  have e: "hkvs0 = hkvs" using a(1) hkvs by simp
  have "owns_fields h' (AList.update k v' hkvs) (AList.update k c' kvs) (Fc' \<union> F0)"
    by (rule fields_put[OF a(2)[unfolded e] old _ new(1)]) (use h'(2) a(3,4) new(2) ak in auto)
  moreover have "a \<notin> Fc' \<union> F0" using a(3,4) new(2) by auto
  moreover have "F - {a} = F0" using a(3,4) by auto
  ultimately show ?thesis using h'(1) by (auto intro: owns_obj)
qed

lemma arrays_kept_append: "arrays_kept h (h @ xs)"
  unfolding arrays_kept_def
proof (intro allI impI)
  fix a ys assume a: "heap_at h a = Some (HArr ys)"
  then have "a < length h" by (rule heap_at_Some)
  then show "heap_at (h @ xs) a = Some (HArr ys)" using a by (simp add: heap_at_append)
qed

lemma arrays_kept_assign:
  "heap_at h a = Some (HObj hkvs) \<Longrightarrow> arrays_kept h (h[a := x])"
  by (auto simp: arrays_kept_def heap_at_update)

lemma refs_kept_assign:
  assumes "heap_at h a = Some (HObj hkvs)" 
    and "\<And>b. map_of hkvs k \<noteq> Some (HRef b)"
  shows "refs_kept h (h[a := HObj (AList.update k x hkvs)])"
  unfolding refs_kept_def
proof (intro allI impI)
  fix a' kvs' k' b
  assume p: "heap_at h a' = Some (HObj kvs') \<and> map_of kvs' k' = Some (HRef b)"
  show "\<exists>kvs''. heap_at (h[a := HObj (AList.update k x hkvs)]) a' = Some (HObj kvs'') \<and>
        map_of kvs'' k' = Some (HRef b)"
  proof (cases "a' = a")
    case True
    then have "kvs' = hkvs" using p assms(1) by simp
    then have "k' \<noteq> k" using p assms(2) by auto
    then show ?thesis using True p assms(1) \<open>kvs' = hkvs\<close>
      by (auto simp: heap_at_update update_conv' dest: heap_at_Some)
  next
    case False
    then show ?thesis using p by (auto simp: heap_at_update)
  qed
qed

lemma refs_kept_append: "refs_kept h (h @ xs)"
  by (simp add: refs_kept_def) (metis heap_at_Some heap_at_append)

lemma h_set_sim:
  assumes "owns h v t F" "setValueFromPath t p (Some s) = Inr t'" "owns h vs s {}"
    and "case getValueFromPath (Some t) p of None \<Rightarrow> True | Some old \<Rightarrow> scalar old"
  shows "\<exists>h' F'. h_setValueFromPath h v p (Some vs) = Inr h' \<and> owns h' v t' F'
           \<and> F' \<subseteq> F \<union> {length h..<length h'} \<and> length h \<le> length h'
           \<and> same_outside F h h' \<and> refs_kept h h' \<and> arrays_kept h h'"
  using assms
proof (induction p arbitrary: h v t t' F)
  case Nil
  then show ?case by (auto simp: same_outside_refl refs_kept_refl arrays_kept_refl)
next
  case (Cons k p)
  from Cons.prems(1,2) obtain kvs where t: "t = JObj kvs"
    by (rule owns_settable)
  from Cons.prems(1)[unfolded t] obtain a hkvs F0 where
    v: "v = HRef a" and ha: "heap_at h a = Some (HObj hkvs)"
    and of: "owns_fields h hkvs kvs F0" and aF0: "a \<notin> F0" and F: "F = insert a F0"
    by (rule owns_objD)
  have alt: "a < length h" using ha by (rule heap_at_Some)
  have F0lt: "F0 \<subseteq> {..<length h}" using owns_bound(2)[OF of] .
  show ?case
  proof (cases p)
    case Nil
    have t': "t' = JObj (AList.update k s kvs)" using Cons.prems(2) Nil t by simp
    have old: "case map_of kvs k of None \<Rightarrow> True | Some c \<Rightarrow> scalar c"
      using Cons.prems(4) Nil t by simp
    let ?h' = "h[a := HObj (AList.update k vs hkvs)]"
    have run: "h_setValueFromPath h v (k # p) (Some vs) = Inr ?h'"
      using Nil v ha by simp
    have ak: "arrays_kept h ?h'" using ha by (rule arrays_kept_assign)
    have new: "owns ?h' vs s {}"
      by (rule owns_frame(1)[OF Cons.prems(3) _ ak]) simp
    have "owns ?h' (HRef a) (JObj (AList.update k s kvs)) (insert a ({} \<union> (F - {a})))"
      by (rule assign_sim[OF Cons.prems(1)[unfolded t v] old refl refl ha new _ _ _ ak])
        (use alt in \<open>auto simp: heap_at_update\<close>)
    moreover have "insert a ({} \<union> (F - {a})) = F" using F by auto
    ultimately have o: "owns ?h' v t' F" using v t' by simp
    have noref: "map_of hkvs k \<noteq> Some (HRef b)" for b
      using fields_ref_not_scalar[OF of, of k b] old by (auto split: option.splits)
    have rk: "refs_kept h ?h'" using refs_kept_assign[OF ha noref] .
    have so: "same_outside F h ?h'" using F by (auto simp: same_outside_def heap_at_update)
    show ?thesis using run o rk so ak by auto
  next
    case (Cons k' p')
    from Cons.prems(2)[unfolded Cons t] show ?thesis
    proof (cases rule: set_step)
      case (vivify kvs1 c')
      then have kvs1: "kvs1 = kvs" by simp
      have fo: "falsy_opt (map_of kvs k)" using vivify kvs1 by simp
      have old: "case map_of kvs k of None \<Rightarrow> True | Some c \<Rightarrow> scalar c"
        using fo by (cases "map_of kvs k") (auto intro: leafy_scalar elim: falsy.elims)
      have hfo: "h_falsy_opt (map_of hkvs k)"
      proof (cases "map_of kvs k")
        case None
        then show ?thesis using fields_lookup[OF of, of k] by simp
      next
        case (Some c)
        then obtain vc Fc where "map_of hkvs k = Some vc" "owns h vc c Fc"
          using fields_lookup[OF of, of k] by auto
        then show ?thesis using owns_falsy[of h vc c Fc] fo Some by simp
      qed
      let ?n = "length h"
      let ?h1 = "h @ [HObj []]"
      let ?h2 = "?h1[a := HObj (AList.update k (HRef ?n) hkvs)]"
      have ha1: "heap_at ?h1 a = Some (HObj hkvs)" using ha alt by (simp add: heap_at_append)
      have ak2: "arrays_kept h ?h2"
        using arrays_kept_trans[OF arrays_kept_append arrays_kept_assign[OF ha1]] .
      have on: "owns ?h2 (HRef ?n) (JObj []) (insert ?n {})"
        by (rule owns_obj[OF _ owns_nil]) (use alt in \<open>auto simp: heap_at_update heap_at_def\<close>)
      have new2: "owns ?h2 vs s {}"
        by (rule owns_frame(1)[OF Cons.prems(3) _ ak2]) simp
      have g: "case getValueFromPath (Some (JObj [])) p of None \<Rightarrow> True | Some old \<Rightarrow> scalar old"
        using Cons by (simp add: get_None)
      from Cons.IH[OF on _ new2 g, of c'] vivify Cons
      obtain h' Fc' where
        run': "h_setValueFromPath ?h2 (HRef ?n) p (Some vs) = Inr h'"
        and oc: "owns h' (HRef ?n) c' Fc'"
        and Fc': "Fc' \<subseteq> {?n} \<union> {length ?h2..<length h'}"
        and len: "length ?h2 \<le> length h'"
        and so': "same_outside {?n} ?h2 h'"
        and rk': "refs_kept ?h2 h'"
        and ak': "arrays_kept ?h2 h'"
        by auto
      have ak: "arrays_kept h h'" using ak2 ak' by (rule arrays_kept_trans)
      have run: "h_setValueFromPath h v (k # p) (Some vs) = Inr h'"
        using Cons v ha ha1 hfo run' by simp
      have keep: "heap_at h' x = heap_at ?h2 x" if "x < length h" for x
        using so' that by (auto simp: same_outside_def)
      have h'a: "heap_at h' a = Some (HObj (AList.update k (HRef ?n) hkvs))"
        using keep[OF alt] alt by (simp add: heap_at_update)
      have h'x: "heap_at h' x = heap_at h x" if "x \<in> F" "x \<noteq> a" for x
      proof -
        have "x < length h" using that F F0lt by auto
        then show ?thesis using keep[of x] that(2) by (simp add: heap_at_update heap_at_append)
      qed
      have Fcr: "length h \<le> x \<and> x < length h'" if "x \<in> Fc'" for x
      proof -
        from that Fc' have "x = length h \<or> x \<in> {length ?h2..<length h'}" by blast
        then show ?thesis using len by auto
      qed
      moreover have "x < length h" if "x \<in> F" for x using F F0lt alt that by auto
      ultimately have dis: "Fc' \<inter> F = {}" by fastforce
      have "owns h' (HRef a) (JObj (AList.update k c' kvs)) (insert a (Fc' \<union> (F - {a})))"
        by (rule assign_sim[OF Cons.prems(1)[unfolded t v] old refl refl ha oc dis h'a h'x ak])
      then have o: "owns h' v t' (insert a (Fc' \<union> (F - {a})))"
        using v vivify kvs1 by simp
      have sub: "insert a (Fc' \<union> (F - {a})) \<subseteq> F \<union> {length h..<length h'}"
        using Fcr F by auto
      have so: "same_outside F h h'"
        unfolding same_outside_def
      proof (intro allI impI)
        fix x assume "x < length h \<and> x \<notin> F"
        then show "heap_at h' x = heap_at h x"
          using keep[of x] F by (simp add: heap_at_update heap_at_append)
      qed
      have noref: "map_of hkvs k \<noteq> Some (HRef b)" for b
        using fields_ref_not_scalar[OF of, of k b] old by (auto split: option.splits)
      have "refs_kept h ?h1" by (rule refs_kept_append)
      moreover have "refs_kept ?h1 ?h2" using refs_kept_assign[OF ha1 noref] .
      ultimately have rk: "refs_kept h h'" using rk' refs_kept_trans by blast
      show ?thesis using run o sub so rk len ak by auto
    next
      case (descend c c')
      have mk: "map_of kvs k = Some c" using descend(1) by simp
      from fields_replace[OF of mk] obtain vc Fc R where
        vc: "map_of hkvs k = Some vc" "owns h vc c Fc" "F0 = Fc \<union> R" "Fc \<inter> R = {}"
        and rep: "\<And>h' c' Fc'. (\<forall>a\<in>R. heap_at h' a = heap_at h a) \<Longrightarrow> owns h' vc c' Fc' \<Longrightarrow>
            Fc' \<inter> R = {} \<Longrightarrow> arrays_kept h h' \<Longrightarrow>
            owns_fields h' hkvs (AList.update k c' kvs) (Fc' \<union> R)"
        by blast
      have nf: "\<not> h_falsy vc" using owns_falsy[OF vc(2)] descend(2) by simp
      have g: "case getValueFromPath (Some c) p of None \<Rightarrow> True | Some old \<Rightarrow> scalar old"
        using Cons.prems(4) t mk by simp
      from Cons.IH[OF vc(2) _ Cons.prems(3) g, of c'] descend Cons
      obtain h' Fc' where
        run': "h_setValueFromPath h vc p (Some vs) = Inr h'"
        and oc: "owns h' vc c' Fc'"
        and Fc': "Fc' \<subseteq> Fc \<union> {length h..<length h'}"
        and len: "length h \<le> length h'"
        and so': "same_outside Fc h h'"
        and rk: "refs_kept h h'"
        and ak: "arrays_kept h h'"
        by auto
      have run: "h_setValueFromPath h v (k # p) (Some vs) = Inr h'"
        using Cons v ha vc(1) nf run' by simp
      have aFc: "a \<notin> Fc" using aF0 vc(3) by auto
      have h'a: "heap_at h' a = Some (HObj hkvs)"
        using so' alt aFc ha by (auto simp: same_outside_def)
      have "owns_fields h' hkvs (AList.update k c' kvs) (Fc' \<union> R)"
      proof (rule rep[OF _ oc _ ak])
        show "\<forall>a\<in>R. heap_at h' a = heap_at h a"
          using so' vc(3,4) F0lt by (auto simp: same_outside_def)
        show "Fc' \<inter> R = {}" using Fc' vc(3,4) F0lt by fastforce
      qed
      moreover have "a \<notin> Fc' \<union> R" using Fc' aFc aF0 vc(3) alt by fastforce
      ultimately have "owns h' (HRef a) (JObj (AList.update k c' kvs)) (insert a (Fc' \<union> R))"
        using h'a by (auto intro: owns_obj)
      then have o: "owns h' v t' (insert a (Fc' \<union> R))"
        using v descend(4) by simp
      have sub: "insert a (Fc' \<union> R) \<subseteq> F \<union> {length h..<length h'}"
        using Fc' F vc(3) by auto
      have so: "same_outside F h h'"
        using so' F vc(3) by (auto simp: same_outside_def)
      show ?thesis using run o sub so rk len ak by auto
    qed
  qed
qed
lemma same_outside_trans:
  assumes "same_outside A h h1" "same_outside B h1 h2" "length h \<le> length h1"
    and "B \<subseteq> A \<union> {length h..<length h1}"
  shows "same_outside A h h2"
  unfolding same_outside_def
proof (intro allI impI)
  fix a assume a: "a < length h \<and> a \<notin> A"
  then have "a \<notin> B" using assms(4) by auto
  then have "heap_at h2 a = heap_at h1 a" using assms(2,3) a by (auto simp: same_outside_def)
  then show "heap_at h2 a = heap_at h a" using assms(1) a by (auto simp: same_outside_def)
qed

lemma sim_after_trans:
  assumes "sim_after h cfg pv Fc Fp h1 D1 P1"
    and "\<And>Fc1 Fp1. owns h1 cfg D1 Fc1 \<Longrightarrow> owns h1 pv P1 Fp1 \<Longrightarrow> Fc1 \<inter> Fp1 = {} \<Longrightarrow>
      sim_after h1 cfg pv Fc1 Fp1 h2 D2 P2"
  shows "sim_after h cfg pv Fc Fp h2 D2 P2"
proof -
  from assms(1) obtain Fc1 Fp1 where 1: "owns h1 cfg D1 Fc1" "owns h1 pv P1 Fp1" "Fc1 \<inter> Fp1 = {}"
    "length h \<le> length h1" "Fc1 \<union> Fp1 \<subseteq> Fc \<union> Fp \<union> {length h..<length h1}"
    "same_outside (Fc \<union> Fp) h h1" "refs_kept h h1" "arrays_kept h h1"
    unfolding sim_after_def by blast
  from assms(2)[OF 1(1-3)] obtain Fc2 Fp2 where 2: "owns h2 cfg D2 Fc2" "owns h2 pv P2 Fp2"
    "Fc2 \<inter> Fp2 = {}" "length h1 \<le> length h2"
    "Fc2 \<union> Fp2 \<subseteq> Fc1 \<union> Fp1 \<union> {length h1..<length h2}"
    "same_outside (Fc1 \<union> Fp1) h1 h2" "refs_kept h1 h2" "arrays_kept h1 h2"
    unfolding sim_after_def by blast
  have "same_outside (Fc \<union> Fp) h h2"
    by (rule same_outside_trans[OF 1(6) 2(6) 1(4) 1(5)])
  moreover have "Fc2 \<union> Fp2 \<subseteq> Fc \<union> Fp \<union> {length h..<length h2}"
  proof
    fix x assume "x \<in> Fc2 \<union> Fp2"
    then have "x \<in> Fc1 \<union> Fp1 \<or> x \<in> {length h1..<length h2}" using 2(5) by blast
    then show "x \<in> Fc \<union> Fp \<union> {length h..<length h2}"
    proof
      assume "x \<in> Fc1 \<union> Fp1"
      then have "x \<in> Fc \<union> Fp \<or> x \<in> {length h..<length h1}" using 1(5) by blast
      then show ?thesis using 2(4) by auto
    next
      assume "x \<in> {length h1..<length h2}"
      then show ?thesis using 1(4) by auto
    qed
  qed
  moreover have "refs_kept h h2" using 1(7) 2(7) by (rule refs_kept_trans)
  moreover have "arrays_kept h h2" using 1(8) 2(8) by (rule arrays_kept_trans)
  ultimately show ?thesis using 2(1-4) 1(4) unfolding sim_after_def by (intro exI[of _ Fc2] exI[of _ Fp2]) auto
qed

lemma sim_after_refl:
  "owns h cfg D Fc \<Longrightarrow> owns h pv P Fp \<Longrightarrow> Fc \<inter> Fp = {} \<Longrightarrow> sim_after h cfg pv Fc Fp h D P"
  unfolding sim_after_def
  by (intro exI[of _ Fc] exI[of _ Fp]) (auto simp: same_outside_refl refs_kept_refl arrays_kept_refl)

text \<open>a write into the persisted structure\<close>

lemma sim_props_write:
  assumes "owns h cfg D Fc" "owns h pv P Fp" "Fc \<inter> Fp = {}"
    and "setValueFromPath P p (Some s) = Inr P'" "owns h vs s {}"
    and "getValueFromPath (Some P) p = None"
  shows "\<exists>h'. h_setValueFromPath h pv p (Some vs) = Inr h' \<and> sim_after h cfg pv Fc Fp h' D P'"
proof -
  from h_set_sim[OF assms(2,4,5)] assms(6) obtain h' Fp' where
    r: "h_setValueFromPath h pv p (Some vs) = Inr h'" "owns h' pv P' Fp'"
      "Fp' \<subseteq> Fp \<union> {length h..<length h'}" "length h \<le> length h'"
      "same_outside Fp h h'" "refs_kept h h'" "arrays_kept h h'"
    by auto
  have b: "Fc \<subseteq> {..<length h}" using owns_bound(1)[OF assms(1)] .
  have c: "owns h' cfg D Fc"
    by (rule owns_frame(1)[OF assms(1) _ r(7)]) (use r(5) b assms(3) in \<open>auto simp: same_outside_def\<close>)
  have d: "Fc \<inter> Fp' = {}" using r(3) b assms(3) by fastforce
  have e: "same_outside (Fc \<union> Fp) h h'" using r(5) by (auto simp: same_outside_def)
  show ?thesis using r(1,2,4,6,7) c d e r(3) unfolding sim_after_def
    by (intro exI[of _ h'] conjI exI[of _ Fc] exI[of _ Fp']) auto
qed

text \<open>a write into the configuration\<close>

lemma sim_cfg_write:
  assumes "owns h cfg D Fc" "owns h pv P Fp" "Fc \<inter> Fp = {}"
    and "setValueFromPath D p (Some s) = Inr D'" "owns h vs s {}"
    and "case getValueFromPath (Some D) p of None \<Rightarrow> True | Some old \<Rightarrow> scalar old"
  shows "\<exists>h'. h_setValueFromPath h cfg p (Some vs) = Inr h' \<and> sim_after h cfg pv Fc Fp h' D' P"
proof -
  from h_set_sim[OF assms(1,4,5,6)] obtain h' Fc' where
    r: "h_setValueFromPath h cfg p (Some vs) = Inr h'" "owns h' cfg D' Fc'"
      "Fc' \<subseteq> Fc \<union> {length h..<length h'}" "length h \<le> length h'"
      "same_outside Fc h h'" "refs_kept h h'" "arrays_kept h h'"
    by auto
  have b: "Fp \<subseteq> {..<length h}" using owns_bound(1)[OF assms(2)] .
  have c: "owns h' pv P Fp"
    by (rule owns_frame(1)[OF assms(2) _ r(7)]) (use r(5) b assms(3) in \<open>auto simp: same_outside_def\<close>)
  have d: "Fc' \<inter> Fp = {}" using r(3) b assms(3) by fastforce
  have e: "same_outside (Fc \<union> Fp) h h'" using r(5) by (auto simp: same_outside_def)
  show ?thesis using r(1,2,4,6,7) c d e r(3) unfolding sim_after_def
    by (intro exI[of _ h'] conjI exI[of _ Fc'] exI[of _ Fp]) auto
qed
lemma h_for_in_sim:
  assumes body: "\<And>k v h D P m P' Fc Fp. (k, v) \<in> set kvs \<Longrightarrow> lookup D (path @ [k]) = Some v \<Longrightarrow>
      owns h cfg D Fc \<Longrightarrow> owns h pv P Fp \<Longrightarrow> Fc \<inter> Fp = {} \<Longrightarrow>
      walk v (path @ [k]) P = (None, m, P') \<Longrightarrow>
      (\<And>q d x. lookup v q = Some d \<Longrightarrow> leafy d \<Longrightarrow>
         getValueFromPath (Some P) ((path @ [k]) @ q) = Some x \<Longrightarrow> flat x) \<Longrightarrow>
      \<exists>h'. body h (path @ [k]) = Some (None, h')
        \<and> sim_after h cfg pv Fc Fp h' (replace_at D (path @ [k]) m) P'"
    and "lookup D path = Some (JObj (done @ kvs))" "distinct (map fst (done @ kvs))"
    and "owns h cfg D Fc" "owns h pv P Fp" "Fc \<inter> Fp = {}"
    and "walk_fields kvs path P = (None, kvs', P')"
    and "\<And>k q d x. lookup (JObj kvs) (k # q) = Some d \<Longrightarrow> leafy d \<Longrightarrow>
         getValueFromPath (Some P) (path @ k # q) = Some x \<Longrightarrow> flat x"
  shows "\<exists>h'. h_for_in body (map fst kvs) h path = Some (None, h')
    \<and> sim_after h cfg pv Fc Fp h' (replace_at D path (JObj (done @ kvs'))) P'"
  using assms
proof (induction kvs arbitrary: "done" D h P Fc Fp kvs')
  case Nil
  then show ?case by (auto simp: replace_at_same sim_after_refl)
next
  case (Cons kv kvs)
  obtain k v where kv: "kv = (k, v)" by (cases kv)
  from Cons.prems(7)[unfolded kv] obtain v' kvs2 PA where
    w: "walk v (path @ [k]) P = (None, v', PA)"
    and f: "walk_fields kvs path PA = (None, kvs2, P')"
    and kvs': "kvs' = (k, v') # kvs2"
    by (rule walk_fields_cons)
  have notin: "k \<notin> fst ` set done" and notin2: "k \<notin> fst ` set kvs"
    using Cons.prems(3) kv by auto
  have mk: "map_of (done @ (k, v) # kvs) k = Some v"
    by (rule map_of_middle[OF notin])
  have lk: "lookup D (path @ [k]) = Some v"
    using Cons.prems(2) kv mk by (simp add: lookup_append del: map_of_append)
  let ?D1 = "replace_at D path (JObj (done @ (k, v') # kvs))"
  have r: "replace_at D (path @ [k]) v' = ?D1"
    using replace_at_append[OF Cons.prems(2)[unfolded kv] mk, of v']
      update_middle[OF notin, of v' v kvs] by simp
  have hv: "flat x" if "lookup v q = Some d" "leafy d"
    "getValueFromPath (Some P) ((path @ [k]) @ q) = Some x" for q d x
    using Cons.prems(8)[of k q d x] that kv by simp
  have "\<exists>h'. body h (path @ [k]) = Some (None, h')
        \<and> sim_after h cfg pv Fc Fp h' (replace_at D (path @ [k]) v') PA"
  proof (rule Cons.prems(1)[OF _ lk Cons.prems(4,5,6) w])
    show "(k, v) \<in> set (kv # kvs)" using kv by simp
  next
    fix q d x
    assume "lookup v q = Some d" "leafy d"
      "getValueFromPath (Some P) ((path @ [k]) @ q) = Some x"
    then show "flat x" by (rule hv)
  qed
  then obtain h1 where b1: "body h (path @ [k]) = Some (None, h1)"
    and s1: "sim_after h cfg pv Fc Fp h1 ?D1 PA"
    using r by auto
  from s1 obtain Fc1 Fp1 where o1: "owns h1 cfg ?D1 Fc1" "owns h1 pv PA Fp1" "Fc1 \<inter> Fp1 = {}"
    unfolding sim_after_def by blast
  have l1: "lookup ?D1 path = Some (JObj ((done @ [(k, v')]) @ kvs))"
    using lookup_replace_at[OF Cons.prems(2)] by simp
  have d1: "distinct (map fst ((done @ [(k, v')]) @ kvs))"
    using Cons.prems(3) kv by simp
  have hk: "flat x" if l: "lookup (JObj kvs) (k2 # q) = Some d" and "leafy d"
    and g: "getValueFromPath (Some PA) (path @ k2 # q) = Some x" for k2 q d x
  proof -
    from l have "k2 \<in> fst ` set kvs"
      by (auto split: option.splits dest!: map_of_SomeD intro: rev_image_eqI)
    then have ne: "k2 \<noteq> k" using notin2 by auto
    have "getValueFromPath (Some PA) (path @ k2 # q) = getValueFromPath (Some P) (path @ k2 # q)"
      by (rule walk_frame(1)[OF w]) (use ne diverge_sibling[of k2 k path q "[]"] in simp)
    then show ?thesis using Cons.prems(8)[of k2 q d x] l ne \<open>leafy d\<close> g kv by simp
  qed
  have step: "\<exists>h2. h_for_in body (map fst kvs) h1 path = Some (None, h2)
      \<and> sim_after h1 cfg pv Fc1' Fp1' h2 (replace_at ?D1 path (JObj ((done @ [(k, v')]) @ kvs2))) P'"
    if "owns h1 cfg ?D1 Fc1'" "owns h1 pv PA Fp1'" "Fc1' \<inter> Fp1' = {}" for Fc1' Fp1'
  proof (rule Cons.IH[OF _ l1 d1 that f])
    fix k2 q d x
    assume "lookup (JObj kvs) (k2 # q) = Some d" "leafy d"
      "getValueFromPath (Some PA) (path @ k2 # q) = Some x"
    then show "flat x" by (rule hk)
  next
    fix k2 v2 h0 D0 P0 m0 P0' Fc0 Fp0
    assume a: "(k2, v2) \<in> set kvs" "lookup D0 (path @ [k2]) = Some v2"
      "owns h0 cfg D0 Fc0" "owns h0 pv P0 Fp0" "Fc0 \<inter> Fp0 = {}"
      "walk v2 (path @ [k2]) P0 = (None, m0, P0')"
      and b: "\<And>q d x. lookup v2 q = Some d \<Longrightarrow> leafy d \<Longrightarrow>
         getValueFromPath (Some P0) ((path @ [k2]) @ q) = Some x \<Longrightarrow> flat x"
    show "\<exists>h'. body h0 (path @ [k2]) = Some (None, h')
        \<and> sim_after h0 cfg pv Fc0 Fp0 h' (replace_at D0 (path @ [k2]) m0) P0'"
    proof (rule Cons.prems(1)[OF _ a(2-6)])
      show "(k2, v2) \<in> set (kv # kvs)" using a(1) by simp
    next
      fix q d x
      assume "lookup v2 q = Some d" "leafy d"
        "getValueFromPath (Some P0) ((path @ [k2]) @ q) = Some x"
      then show "flat x" by (rule b)
    qed
  qed
  from step[OF o1] obtain h2 where b2: "h_for_in body (map fst kvs) h1 path = Some (None, h2)"
    by blast
  have s2: "sim_after h1 cfg pv Fc1' Fp1' h2 (replace_at ?D1 path (JObj ((done @ [(k, v')]) @ kvs2))) P'"
    if "owns h1 cfg ?D1 Fc1'" "owns h1 pv PA Fp1'" "Fc1' \<inter> Fp1' = {}" for Fc1' Fp1'
    using step[OF that] b2 by simp
  have "sim_after h cfg pv Fc Fp h2 (replace_at ?D1 path (JObj ((done @ [(k, v')]) @ kvs2))) P'"
    by (rule sim_after_trans[OF s1 s2])
  moreover have "replace_at ?D1 path (JObj ((done @ [(k, v')]) @ kvs2))
      = replace_at D path (JObj (done @ kvs'))"
    using replace_at_twice[OF Cons.prems(2)] kvs' by simp
  ultimately show ?case using b1 b2 kv by simp
qed

lemma embed_leafy: "leafy t \<Longrightarrow> \<not> h_isArray h (Some (embed t)) \<and> \<not> h_typeof_object (Some (embed t))"
  by (cases t) simp_all

lemma h_loadConfig_sim:
  assumes "wf_json t" "lookup D path = Some t" "depth t \<le> n"
    and "owns h cfg D Fc" "owns h pv P Fp" "Fc \<inter> Fp = {}"
    and "walk t path P = (None, m, P')"
    and "\<And>q d x. lookup t q = Some d \<Longrightarrow> leafy d \<Longrightarrow>
         getValueFromPath (Some P) (path @ q) = Some x \<Longrightarrow> flat x"
  shows "\<exists>h'. h_loadConfig n cfg pv h path = Some (None, h')
    \<and> sim_after h cfg pv Fc Fp h' (replace_at D path m) P'"
  using assms
proof (induction n arbitrary: t D path h P Fc Fp m P')
  case 0
  then show ?case by (cases t) simp_all
next
  case (Suc n)
  have g: "getValueFromPath (Some D) path = Some t"
    using Suc.prems(2) by (rule get_lookup)
  from owns_get[OF Suc.prems(4), of path] g obtain thing Ft where
    thing: "h_getValueFromPath h (Some cfg) path = Some thing" "owns h thing t Ft"
    by auto
  from Suc.prems(7) show ?case
  proof (cases rule: walk_cases)
    case null
    then have "thing = HNull" using thing(2) by (auto elim: owns.cases)
    then show ?thesis using thing(1) null Suc.prems(2,4,5,6)
      by (simp add: replace_at_same sim_after_refl)
  next
    case (obj kvs kvs')
    from thing(2)[unfolded obj(1)] obtain a hkvs F0 where
      a: "thing = HRef a" "heap_at h a = Some (HObj hkvs)" "owns_fields h hkvs kvs F0"
      by (rule owns_objD)
    have keys: "map fst hkvs = map fst kvs" using fields_keys[OF a(3)] .
    have "\<exists>h'. h_for_in (\<lambda>h' pa. h_loadConfig n cfg pv h' pa) (map fst kvs) h path = Some (None, h')
      \<and> sim_after h cfg pv Fc Fp h' (replace_at D path (JObj ([] @ kvs'))) P'"
    proof (rule h_for_in_sim[where ?done = "[]", OF _ _ _ Suc.prems(4,5,6) obj(3)])
      show "lookup D path = Some (JObj ([] @ kvs))" using Suc.prems(2) obj(1) by simp
      show "distinct (map fst ([] @ kvs))" using Suc.prems(1) obj(1) by simp
    next
      fix k q d x
      assume "lookup (JObj kvs) (k # q) = Some d" "leafy d"
        "getValueFromPath (Some P) (path @ k # q) = Some x"
      then show "flat x" using Suc.prems(8)[of "k # q" d x] obj(1) by simp
    next
      fix k v h0 D0 P0 m0 P0' Fc0 Fp0
      assume b: "(k, v) \<in> set kvs" "lookup D0 (path @ [k]) = Some v"
        "owns h0 cfg D0 Fc0" "owns h0 pv P0 Fp0" "Fc0 \<inter> Fp0 = {}"
        "walk v (path @ [k]) P0 = (None, m0, P0')"
        and c: "\<And>q d x. lookup v q = Some d \<Longrightarrow> leafy d \<Longrightarrow>
           getValueFromPath (Some P0) ((path @ [k]) @ q) = Some x \<Longrightarrow> flat x"
      have "wf_json v" using Suc.prems(1) obj(1) b(1) wf_child by blast
      moreover have "depth v \<le> n" using depth_child[OF b(1)] Suc.prems(3) obj(1) by simp
      ultimately show "\<exists>h'. h_loadConfig n cfg pv h0 (path @ [k]) = Some (None, h')
          \<and> sim_after h0 cfg pv Fc0 Fp0 h' (replace_at D0 (path @ [k]) m0) P0'"
        using Suc.IH[OF _ b(2) _ b(3,4,5,6)] c by blast
    qed
    then show ?thesis using thing(1) a keys obj(2) by simp
  next
    case written
    have sc: "scalar t" using written(1) by (rule leafy_scalar)
    have th: "thing = embed t" using owns_scalar[OF thing(2) sc] by simp
    have ot: "owns h (embed t) t {}" using sc by (rule owns_embed)
    have pn: "h_getValueFromPath h (Some pv) path = None"
      using owns_get[OF Suc.prems(5), of path] written(2) by simp
    from sim_props_write[OF Suc.prems(4,5,6) written(3) ot written(2)] obtain h' where
      "h_setValueFromPath h pv path (Some (embed t)) = Inr h'" "sim_after h cfg pv Fc Fp h' D P'"
      by blast
    then show ?thesis using thing(1) th pn embed_leafy[OF written(1), of h] written(4)
        replace_at_same[OF Suc.prems(2)]
      by simp
  next
    case (found v)
    have sc: "scalar t" using found(1) by (rule leafy_scalar)
    have th: "thing = embed t" using owns_scalar[OF thing(2) sc] by simp
    have sv: "flat v" using Suc.prems(8)[of "[]" t v] found(1,2) by simp
    from owns_get[OF Suc.prems(5), of path] found(2) obtain pvt Fv where
      pg: "h_getValueFromPath h (Some pv) path = Some pvt" and "owns h pvt v Fv"
      by auto
    then have ov: "owns h pvt v {}" using owns_flat[OF _ sv] by auto
    have old: "case getValueFromPath (Some D) path of None \<Rightarrow> True | Some old \<Rightarrow> scalar old"
      using g sc by simp
    from sim_cfg_write[OF Suc.prems(4,5,6) set_cfg[OF Suc.prems(2), of v] ov old] obtain h' where
      r: "h_setValueFromPath h cfg path (Some pvt) = Inr h'"
        "sim_after h cfg pv Fc Fp h' (if path = [] then D else replace_at D path v) P"
      by blast
    have "(if path = [] then D else replace_at D path v) = replace_at D path m"
      using found(4) Suc.prems(2) by auto
    then show ?thesis using thing(1) th pg embed_leafy[OF found(1), of h] r found(3)
      by simp
  qed
qed
lemma alloc_extends:
  "alloc h t = (h', v) \<Longrightarrow> \<exists>xs. h' = h @ xs"
  "alloc_fields h kvs = (h', hkvs) \<Longrightarrow> \<exists>xs. h' = h @ xs"
  "alloc_list h ts = (h', hvs) \<Longrightarrow> \<exists>xs. h' = h @ xs"
proof (induction h t and h kvs and h ts arbitrary: h' v and h' hkvs and h' hvs
    rule: alloc_alloc_fields_alloc_list.induct)
  case (5 h kvs)
  then show ?case by (fastforce split: prod.splits)
next
  case (6 h xs)
  then show ?case by (fastforce split: prod.splits)
next
  case (8 h k v kvs)
  then show ?case by (fastforce split: prod.splits)
next
  case (10 h v vs)
  then show ?case by (fastforce split: prod.splits)
qed auto

lemma owns_append:
  assumes "owns h v t F"
  shows "owns (h @ xs) v t F"
proof (rule owns_frame(1)[OF assms])
  fix a assume "a \<in> F"
  then have "a < length h" using owns_bound(1)[OF assms] by auto
  then show "heap_at (h @ xs) a = heap_at h a" by (rule heap_at_append)
qed (rule arrays_kept_append)

lemma owns_fields_append:
  assumes "owns_fields h hkvs kvs F"
  shows "owns_fields (h @ xs) hkvs kvs F"
proof (rule owns_frame(2)[OF assms])
  fix a assume "a \<in> F"
  then have "a < length h" using owns_bound(2)[OF assms] by auto
  then show "heap_at (h @ xs) a = heap_at h a" by (rule heap_at_append)
qed (rule arrays_kept_append)

lemma alloc_owns:
  "alloc h t = (h', v) \<Longrightarrow> no_arrays t \<Longrightarrow> owns h' v t {length h..<length h'}"
  "alloc_fields h kvs = (h', hkvs) \<Longrightarrow> list_all no_arrays (map snd kvs) \<Longrightarrow>
     owns_fields h' hkvs kvs {length h..<length h'}"
  "alloc_list h ts = (h', hvs) \<Longrightarrow> True"
proof (induction h t and h kvs and h ts arbitrary: h' v and h' hkvs and h' hvs
    rule: alloc_alloc_fields_alloc_list.induct)
  case (5 h kvs)
  obtain h1 hk where a: "alloc_fields h kvs = (h1, hk)" by (cases "alloc_fields h kvs")
  then have r: "h' = h1 @ [HObj hk]" "v = HRef (length h1)" using "5.prems"(1) by auto
  have o: "owns_fields h1 hk kvs {length h..<length h1}"
    using "5.IH"(1)[OF a] "5.prems"(2) by simp
  obtain xs where "h1 = h @ xs" using alloc_extends(2)[OF a] by blast
  then have le: "length h \<le> length h1" by simp
  have "owns (h1 @ [HObj hk]) (HRef (length h1)) (JObj kvs) (insert (length h1) {length h..<length h1})"
    by (rule owns_obj[OF _ owns_fields_append[OF o]]) (auto simp: heap_at_def)
  moreover have "insert (length h1) {length h..<length h1} = {length h..<length (h1 @ [HObj hk])}"
    using le by auto
  ultimately show ?case using r by simp
next
  case (8 h k v kvs)
  obtain h1 hv where a: "alloc h v = (h1, hv)" by (cases "alloc h v")
  obtain h2 hk where b: "alloc_fields h1 kvs = (h2, hk)" by (cases "alloc_fields h1 kvs")
  have r: "h' = h2" "hkvs = (k, hv) # hk" using "8.prems"(1) a b by auto
  have o1: "owns h1 hv v {length h..<length h1}" using "8.IH"(1)[OF a] "8.prems"(2) by simp
  have o2: "owns_fields h2 hk kvs {length h1..<length h2}"
    using "8.IH"(2)[OF a[symmetric] b] "8.prems"(2) by simp
  obtain xs where x: "h1 = h @ xs" using alloc_extends(1)[OF a] by blast
  obtain ys where y: "h2 = h1 @ ys" using alloc_extends(2)[OF b] by blast
  have "owns_fields h2 ((k, hv) # hk) ((k, v) # kvs) ({length h..<length h1} \<union> {length h1..<length h2})"
    by (rule owns_cons[OF _ o2]) (use o1 y owns_append in auto)
  moreover have "{length h..<length h1} \<union> {length h1..<length h2} = {length h..<length h2}"
    using x y by auto
  ultimately show ?case using r by simp
qed (auto intro: owns_owns_fields.intros)

lemma read_list_scalars:
  "list_all2 (\<lambda>v x. scalar x \<and> v = embed x) hxs xs \<Longrightarrow> read_list n h hxs = Some xs"
proof (induction hxs xs rule: list_all2_induct)
  case Nil
  show ?case by simp
next
  case (Cons v hxs x xs)
  then have "read_back n h v = Some x" by (cases x) simp_all
  then show ?case using Cons.IH by simp
qed

lemma owns_read_back:
  "owns h v t F \<Longrightarrow> depth t \<le> n \<Longrightarrow> read_back n h v = Some t"
  "owns_fields h hkvs kvs F \<Longrightarrow> (\<forall>c \<in> snd ` set kvs. depth c \<le> n) \<Longrightarrow>
     read_fields n h hkvs = Some kvs"
proof (induction arbitrary: n and n rule: owns_owns_fields.inducts)
  case (owns_obj h a hkvs kvs F)
  then obtain m where n: "n = Suc m" by (cases n) auto
  have "depth c \<le> m" if "c \<in> snd ` set kvs" for c
  proof -
    from that obtain k where "(k, c) \<in> set kvs" by auto
    then show ?thesis using depth_child[of k c kvs] owns_obj.prems n by simp
  qed
  then show ?case using owns_obj n by simp
next
  case (owns_arr h a hxs xs)
  then obtain m where n: "n = Suc m" by (cases n) auto
  show ?case using owns_arr.hyps(1) read_list_scalars[OF owns_arr.hyps(2), of m h] n by simp
qed auto

section \<open>The caller's object\<close>

lemma flat_overridesD:
  "flat_overrides D P \<Longrightarrow> lookup D q = Some d \<Longrightarrow> leafy d \<Longrightarrow>
   getValueFromPath (Some P) q = Some v \<Longrightarrow> flat v"
  using leaf_paths_complete[of D q d] by (auto simp: flat_overrides_def list_all_iff)


text \<open>
  The reconciliation on the heap does what the value model does, where the default
  structure and the persisted structure are two trees apart from each other and the
  persisted structure holds scalars or arrays of scalars at the leaf paths of the
  default structure.
\<close>

lemma heap_run:
  assumes "owns h defaultConfig D Fc" "owns h props P Fp" "Fc \<inter> Fp = {}"
    and "wf_json D" "depth D \<le> fuel" "flat_overrides D P"
    and "loadConfig fuel D P [] = Some (None, M, P')"
  shows "\<exists>h1. h_loadConfig fuel defaultConfig props h [] = Some (None, h1)
           \<and> sim_after h defaultConfig props Fc Fp h1 M P'"
proof -
  have w: "walk D [] P = (None, M, P')" using loadConfig_ok[OF assms(7,4,5)] .
  have "\<exists>h'. h_loadConfig fuel defaultConfig props h [] = Some (None, h')
      \<and> sim_after h defaultConfig props Fc Fp h' (replace_at D [] M) P'"
  proof (rule h_loadConfig_sim[OF assms(4) _ assms(5) assms(1,2,3) w])
    show "lookup D [] = Some D" by simp
  next
    fix q d x
    assume "lookup D q = Some d" "leafy d" "getValueFromPath (Some P) ([] @ q) = Some x"
    then show "flat x" using flat_overridesD[OF assms(6)] by simp
  qed
  then show ?thesis by simp
qed




text \<open>
  The two runs of the witness, evaluated. The caller's object is at address 1 and its
  nested object at address 0. With the caller's reference kept, the caller's object
  holds the persisted port afterwards; with the copy, at address 4, the caller's object
  keeps its own port, and the nested object, which the copy shares, holds the persisted
  level.
\<close>

lemma caller_object_example:
  "h_loadConfig 3 (HRef 1) (HRef 3)
     [HObj [(''level'', HNum (Finite 0))], HObj [(''port'', HNum (Finite 1234)), (''log'', HRef 0)],
      HObj [(''level'', HNum (Finite 10))], HObj [(''port'', HNum (Finite 9999)), (''log'', HRef 2)]] []
   = Some (None,
       [HObj [(''level'', HNum (Finite 10))], HObj [(''port'', HNum (Finite 9999)), (''log'', HRef 0)],
        HObj [(''level'', HNum (Finite 10))], HObj [(''port'', HNum (Finite 9999)), (''log'', HRef 2)]])"
  "h_loadConfig 3 (HRef 4) (HRef 3)
     [HObj [(''level'', HNum (Finite 0))], HObj [(''port'', HNum (Finite 1234)), (''log'', HRef 0)],
      HObj [(''level'', HNum (Finite 10))], HObj [(''port'', HNum (Finite 9999)), (''log'', HRef 2)],
      HObj [(''port'', HNum (Finite 1234)), (''log'', HRef 0)]] []
   = Some (None,
       [HObj [(''level'', HNum (Finite 10))], HObj [(''port'', HNum (Finite 1234)), (''log'', HRef 0)],
        HObj [(''level'', HNum (Finite 10))], HObj [(''port'', HNum (Finite 9999)), (''log'', HRef 2)],
        HObj [(''port'', HNum (Finite 9999)), (''log'', HRef 0)]])"
  by code_simp+

section \<open>Arrays in the persisted structure\<close>

text \<open>
  C4, as amended. An array in the persisted structure is not an error. Let the default
  structure \<open>D\<close> hold no array and no key that names an inherited member, each object key
  once; let \<open>D\<close> and the persisted structure \<open>P\<close> be two trees of objects in the heap, apart
  from each other, the arrays of \<open>P\<close> being arrays of scalars; let every leaf path of \<open>D\<close>
  be writable in \<open>P\<close>, and let \<open>P\<close> hold a scalar or an array of scalars wherever it holds
  something at a leaf path of \<open>D\<close>. Then \<open>loadConfig\<close> raises nothing, in the value model
  and on the heap; afterwards the caller's object reads as the merged structure \<open>M\<close> and
  the parsed file as \<open>P'\<close>; and an array that \<open>P\<close> holds at the path of a string, number or
  boolean leaf of \<open>D\<close> is the merged value at that path and stays in the persisted
  structure.
\<close>

theorem persisted_array_accepted:
  assumes "owns h defaultConfig D Fc" and "owns h props P Fp" and "Fc \<inter> Fp = {}"
    and "wf_json D" and "depth D \<le> fuel" and "no_arrays D" and "plain_keys D"
    and "leaves_settable D P" and "flat_overrides D P"
  shows "\<exists>M P' h1. loadConfig fuel D P [] = Some (None, M, P')
           \<and> h_loadConfig fuel defaultConfig props h [] = Some (None, h1)
           \<and> read_back (depth M) h1 defaultConfig = Some M
           \<and> read_back (depth P') h1 props = Some P'
           \<and> (\<forall>q d xs. lookup D q = Some d \<and> leafy d \<and> q \<noteq> []
                  \<and> getValueFromPath (Some P) q = Some (JArr xs)
                \<longrightarrow> lookup M q = Some (JArr xs) \<and> getValueFromPath (Some P') q = Some (JArr xs))"
proof -
  from reconciles[OF assms(4,5,6,8)] obtain M P' where
    r: "loadConfig fuel D P [] = Some (None, M, P')"
    by blast
  from heap_run[OF assms(1,2,3,4,5,9) r] obtain h1 where
    run: "h_loadConfig fuel defaultConfig props h [] = Some (None, h1)"
    and sim: "sim_after h defaultConfig props Fc Fp h1 M P'"
    by blast
  from sim obtain Fm Fq where o: "owns h1 defaultConfig M Fm" "owns h1 props P' Fq"
    unfolding sim_after_def by blast
  have rm: "read_back (depth M) h1 defaultConfig = Some M"
    using o(1) by (rule owns_read_back(1)) simp
  have rp: "read_back (depth P') h1 props = Some P'"
    using o(2) by (rule owns_read_back(1)) simp
  have "lookup M q = Some (JArr xs) \<and> getValueFromPath (Some P') q = Some (JArr xs)"
    if "lookup D q = Some d" "leafy d" "q \<noteq> []" "getValueFromPath (Some P) q = Some (JArr xs)"
    for q d xs
    using persisted_wins[OF r assms(4,5) that] .
  then show ?thesis using r run rm rp by blast
qed

text \<open>
  With the default \<^verbatim>\<open>{ a: 5, b: true }\<close> as the object at address 0 and the parsed file
  \<^verbatim>\<open>{ "a": [1], "z": "kept" }\<close> as the object at address 2, its array at address 1.
\<close>

theorem persisted_array_accepted_witness:
  "alloc [] (JObj [(''a'', JNum (Finite 5)), (''b'', JBool True)])
     = ([HObj [(''a'', HNum (Finite 5)), (''b'', HBool True)]], HRef 0)
   \<and> alloc [HObj [(''a'', HNum (Finite 5)), (''b'', HBool True)]]
        (JObj [(''a'', JArr [JNum (Finite 1)]), (''z'', JStr ''kept'')])
     = ([HObj [(''a'', HNum (Finite 5)), (''b'', HBool True)], HArr [HNum (Finite 1)],
         HObj [(''a'', HRef 1), (''z'', HStr ''kept'')]], HRef 2)
   \<and> plain_keys (JObj [(''a'', JNum (Finite 5)), (''b'', JBool True)])
   \<and> leaves_settable (JObj [(''a'', JNum (Finite 5)), (''b'', JBool True)])
        (JObj [(''a'', JArr [JNum (Finite 1)]), (''z'', JStr ''kept'')])
   \<and> flat_overrides (JObj [(''a'', JNum (Finite 5)), (''b'', JBool True)])
        (JObj [(''a'', JArr [JNum (Finite 1)]), (''z'', JStr ''kept'')])
   \<and> (\<exists>h1. h_loadConfig 2 (HRef 0) (HRef 2)
          [HObj [(''a'', HNum (Finite 5)), (''b'', HBool True)], HArr [HNum (Finite 1)],
           HObj [(''a'', HRef 1), (''z'', HStr ''kept'')]] [] = Some (None, h1)
        \<and> read_back 2 h1 (HRef 0) = Some (JObj [(''a'', JArr [JNum (Finite 1)]), (''b'', JBool True)])
        \<and> read_back 2 h1 (HRef 2)
            = Some (JObj [(''a'', JArr [JNum (Finite 1)]), (''z'', JStr ''kept''), (''b'', JBool True)]))"
proof -
  let ?D = "JObj [(''a'', JNum (Finite 5)), (''b'', JBool True)]"
  let ?P = "JObj [(''a'', JArr [JNum (Finite 1)]), (''z'', JStr ''kept'')]"
  let ?M = "JObj [(''a'', JArr [JNum (Finite 1)]), (''b'', JBool True)]"
  let ?P' = "JObj [(''a'', JArr [JNum (Finite 1)]), (''z'', JStr ''kept''), (''b'', JBool True)]"
  let ?hd = "[HObj [(''a'', HNum (Finite 5)), (''b'', HBool True)]]"
  let ?h = "[HObj [(''a'', HNum (Finite 5)), (''b'', HBool True)], HArr [HNum (Finite 1)],
             HObj [(''a'', HRef 1), (''z'', HStr ''kept'')]]"
  have ad: "alloc [] ?D = (?hd, HRef 0)" by simp
  have ap: "alloc ?hd ?P = (?h, HRef 2)" by simp
  have "owns ?hd (HRef 0) ?D {length ([] :: heap)..<length ?hd}"
    by (rule alloc_owns(1)[OF ad]) simp
  then have "owns (?hd @ [HArr [HNum (Finite 1)], HObj [(''a'', HRef 1), (''z'', HStr ''kept'')]])
      (HRef 0) ?D {length ([] :: heap)..<length ?hd}"
    by (rule owns_append)
  then have od: "owns ?h (HRef 0) ?D {0}" by simp
  have oa: "owns ?h (HRef 1) (JArr [JNum (Finite 1)]) {}"
    by (rule owns_arr[of _ _ "[HNum (Finite 1)]"]) (simp_all add: heap_at_def)
  have "owns_fields ?h [(''a'', HRef 1), (''z'', HStr ''kept'')]
      [(''a'', JArr [JNum (Finite 1)]), (''z'', JStr ''kept'')] ({} \<union> ({} \<union> {}))"
    by (intro owns_cons oa owns_str owns_nil) simp_all
  then have "owns ?h (HRef 2) ?P (insert 2 ({} \<union> ({} \<union> {})))"
    by (intro owns_obj) (simp_all add: heap_at_def)
  then have op: "owns ?h (HRef 2) ?P {2}" by simp
  have dj: "{0} \<inter> {2} = ({} :: nat set)" by simp
  have wf: "wf_json ?D" "depth ?D \<le> 2" "no_arrays ?D" by simp_all
  have pk: "plain_keys ?D" by code_simp
  have ls: "leaves_settable ?D ?P" by (simp add: leaves_settable_def)
  have fo: "flat_overrides ?D ?P" by (simp add: flat_overrides_def)
  have lc: "loadConfig 2 ?D ?P [] = Some (None, ?M, ?P')" by code_simp
  have dm: "depth ?M = 2" "depth ?P' = 2" by simp_all
  from persisted_array_accepted[OF od op dj wf pk ls fo] obtain M P' h1 where
    T: "loadConfig 2 ?D ?P [] = Some (None, M, P')"
      "h_loadConfig 2 (HRef 0) (HRef 2) ?h [] = Some (None, h1)"
      "read_back (depth M) h1 (HRef 0) = Some M"
      "read_back (depth P') h1 (HRef 2) = Some P'"
    by blast
  from T(1) lc have eq: "M = ?M" "P' = ?P'" by simp_all
  have r1: "read_back 2 h1 (HRef 0) = Some ?M" using T(3)[unfolded eq dm] .
  have r2: "read_back 2 h1 (HRef 2) = Some ?P'" using T(4)[unfolded eq dm] .
  show ?thesis using ad ap pk ls fo T(2) r1 r2 by blast
qed

text \<open>
  The claim as stated fails: with the default \<^verbatim>\<open>{ a: 5 }\<close> and the persisted file
  \<^verbatim>\<open>{ "a": [1, 2] }\<close>, \<open>init\<close> succeeds and the merged configuration holds the array.
\<close>

theorem persisted_array_no_error:
  "\<not> no_arrays (JObj [(''a'', JArr [JNum (Finite 1), JNum (Finite 2)])])
   \<and> init 2 (Config (JObj [(''a'', JNum (Finite 5))]))
        \<lparr>content = Some (Doc (JObj [(''a'', JArr [JNum (Finite 1), JNum (Finite 2)])])), written = []\<rparr>
      = Some (None,
          \<lparr>initialized = True, config = JObj [(''a'', JArr [JNum (Finite 1), JNum (Finite 2)])]\<rparr>,
          \<lparr>content = Some (Doc (JObj [(''a'', JArr [JNum (Finite 1), JNum (Finite 2)])])),
             written = [Doc (JObj [(''a'', JArr [JNum (Finite 1), JNum (Finite 2)])])]\<rparr>)"
  by code_simp


end
